theory Spec2Isabelle
  imports Main "HOL-Library.Word"
begin

unbundle bit_operations_syntax

section \<open>Outcomes of a call\<close>

text \<open>
  A member function of \<^verbatim>\<open>QRCode\<close> either returns, or leaves by an exception, or runs
  into behaviour the language leaves undefined (reading through a pointer that was never
  set, indexing a raw array or an iterator range out of bounds). The three are kept apart.
\<close>

datatype exn = logic_error string | out_of_range | length_error

datatype 'a outcome = Returned 'a | Throws exn | Undefined

fun andThen :: "'a outcome \<Rightarrow> ('a \<Rightarrow> 'b outcome) \<Rightarrow> 'b outcome" where
  "andThen (Returned x) f = f x"
| "andThen (Throws e) f = Throws e"
| "andThen Undefined f = Undefined"

lemma andThen_cong [fundef_cong]:
  "m = m' \<Longrightarrow> (\<And>x. m' = Returned x \<Longrightarrow> f x = f' x) \<Longrightarrow> andThen m f = andThen m' f'"
  by (cases m') auto

lemma andThen_Returned_iff:
  "andThen m f = Returned y \<longleftrightarrow> (\<exists>x. m = Returned x \<and> f x = Returned y)"
  by (cases m) auto

text \<open>C++ integer division and remainder truncate towards zero.\<close>

definition cdiv :: "int \<Rightarrow> int \<Rightarrow> int" where
  "cdiv a b = sgn a * sgn b * (\<bar>a\<bar> div \<bar>b\<bar>)"

definition cmod :: "int \<Rightarrow> int \<Rightarrow> int" where
  "cmod a b = a - b * cdiv a b"

lemma cdiv_nonneg: "0 \<le> a \<Longrightarrow> 0 < b \<Longrightarrow> cdiv a b = a div b"
  by (cases "a = 0") (simp_all add: cdiv_def)

lemma cmod_nonneg: "0 \<le> a \<Longrightarrow> 0 < b \<Longrightarrow> cmod a b = a mod b"
  by (simp add: cmod_def cdiv_nonneg minus_mult_div_eq_mod)

section \<open>Data model (qr.h)\<close>

text \<open>
  Names follow the source; a trailing underscore of the source (\<^verbatim>\<open>version_\<close>) is
  written as a prime (\<open>version'\<close>).
\<close>

datatype ErrCor = kLow | kMedium | kQuartile | kHigh

fun ErrCor_to_int :: "ErrCor \<Rightarrow> int" where
  "ErrCor_to_int kLow = 0"
| "ErrCor_to_int kMedium = 1"
| "ErrCor_to_int kQuartile = 2"
| "ErrCor_to_int kHigh = 3"

text \<open>\<^verbatim>\<open>static_cast<ErrCor>(j)\<close>; the selection loop only casts values between 0 and 3.\<close>

definition ErrCor_of_int :: "int \<Rightarrow> ErrCor" where
  "ErrCor_of_int j = (if j = 0 then kLow else if j = 1 then kMedium
                      else if j = 2 then kQuartile else kHigh)"

record Encoding =
  encoding_mode' :: int
  bits_per_char' :: "int list"

definition mkEncoding :: "int \<Rightarrow> int \<Rightarrow> int \<Rightarrow> int \<Rightarrow> Encoding" where
  "mkEncoding mode v1_9 v10_26 v27_40 =
     \<lparr>encoding_mode' = mode, bits_per_char' = [v1_9, v10_26, v27_40]\<rparr>"

definition kNumeric' :: Encoding where "kNumeric' = mkEncoding 1 10 12 14"
definition kAlpha' :: Encoding where "kAlpha' = mkEncoding 2 9 11 13"
definition kByte' :: Encoding where "kByte' = mkEncoding 4 8 16 16"
definition kEci' :: Encoding where "kEci' = mkEncoding 7 0 0 0"
definition kKanji' :: Encoding where "kKanji' = mkEncoding 8 8 10 12"

definition getEncodingMode :: "Encoding \<Rightarrow> int" where
  "getEncodingMode e = encoding_mode' e"

definition getBitsPerChar :: "Encoding \<Rightarrow> int \<Rightarrow> int outcome" where
  "getBitsPerChar e ver =
     (if ver > 0 \<and> ver < 10 then Returned (bits_per_char' e ! 0)
      else if ver > 9 \<and> ver < 27 then Returned (bits_per_char' e ! 1)
      else if ver > 26 \<and> ver < 41 then Returned (bits_per_char' e ! 2)
      else Throws (logic_error ''Invalid version''))"

type_synonym uint8 = "8 word"

text \<open>
  The object. \<^verbatim>\<open>kEncoding_\<close> is a pointer to one of the constant encodings; \<open>None\<close>
  stands for a pointer that does not point to an encoding.
\<close>

record QRCode =
  version' :: int
  size' :: int
  mask' :: int
  plain_text' :: string
  correctionLevel' :: ErrCor
  blocks' :: "bool list list"
  funcBlock' :: "bool list list"
  data' :: "uint8 list"
  rsLog' :: "uint8 list"
  rsExp' :: "uint8 list"
  kEncoding' :: "Encoding option"

definition deref :: "'a option \<Rightarrow> 'a outcome" where
  "deref p = (case p of None \<Rightarrow> Undefined | Some x \<Rightarrow> Returned x)"

text \<open>An example of storage before construction, for evaluating the model.\<close>

definition raw0 :: QRCode where
  "raw0 = \<lparr>version' = 0, size' = 0, mask' = 0, plain_text' = [], correctionLevel' = kLow,
            blocks' = [], funcBlock' = [], data' = [], rsLog' = [], rsExp' = [],
            kEncoding' = None\<rparr>"

definition kAlphanumericChar' :: string where
  "kAlphanumericChar' = ''0123456789ABCDEFGHIJKLMNOPQRSTUVWXYZ $%*+-./:''"

definition kEC_codewords_per_block' :: "int list list" where
  "kEC_codewords_per_block' =
   [[-1,  7, 10, 15, 20, 26, 18, 20, 24, 30, 18, 20, 24, 26, 30, 22, 24, 28, 30, 28, 28, 28, 28, 30, 30, 26, 28, 30, 30, 30, 30, 30, 30, 30, 30, 30, 30, 30, 30, 30, 30],
    [-1, 10, 16, 26, 18, 24, 16, 18, 22, 22, 26, 30, 22, 22, 24, 24, 28, 28, 26, 26, 26, 26, 28, 28, 28, 28, 28, 28, 28, 28, 28, 28, 28, 28, 28, 28, 28, 28, 28, 28, 28],
    [-1, 13, 22, 18, 26, 18, 24, 18, 22, 20, 24, 28, 26, 24, 20, 30, 24, 28, 28, 26, 30, 28, 30, 30, 30, 30, 28, 30, 30, 30, 30, 30, 30, 30, 30, 30, 30, 30, 30, 30, 30],
    [-1, 17, 28, 22, 16, 22, 28, 26, 26, 24, 28, 24, 28, 22, 24, 24, 30, 28, 28, 26, 28, 30, 24, 30, 30, 30, 30, 30, 30, 30, 30, 30, 30, 30, 30, 30, 30, 30, 30, 30, 30]]"

definition kErr_corr_blocks' :: "int list list" where
  "kErr_corr_blocks' =
   [[-1, 1, 1, 1, 1, 1, 2, 2, 2, 2,  4,  4,  4,  4,  4,  6,  6,  6,  6,  7,  8,  8,  9,  9, 10, 12, 12, 12, 13, 14, 15, 16, 17, 18, 19, 19, 20, 21, 22, 24, 25],
    [-1, 1, 1, 1, 2, 2, 4, 4, 4, 5,  5,  5,  8,  9,  9, 10, 10, 11, 13, 14, 16, 17, 17, 18, 20, 21, 23, 25, 26, 28, 29, 31, 33, 35, 37, 38, 40, 43, 45, 47, 49],
    [-1, 1, 1, 2, 2, 4, 4, 6, 6, 8,  8,  8, 10, 12, 16, 12, 17, 16, 18, 21, 20, 23, 23, 25, 27, 29, 34, 34, 35, 38, 40, 43, 45, 48, 51, 53, 56, 59, 62, 65, 68],
    [-1, 1, 1, 2, 4, 4, 4, 5, 6, 8,  8, 11, 11, 16, 16, 18, 16, 19, 21, 25, 25, 25, 34, 30, 32, 35, 37, 40, 42, 45, 48, 51, 54, 57, 60, 63, 66, 70, 74, 77, 81]]"

text \<open>
  Reading \<^verbatim>\<open>table[static_cast<int>(level)][version]\<close> from a \<^verbatim>\<open>[4][41]\<close> array:
  nothing checks the version, so an index outside the row is undefined behaviour.
\<close>

definition table_at :: "int list list \<Rightarrow> ErrCor \<Rightarrow> int \<Rightarrow> int outcome" where
  "table_at t level version =
     (if 0 \<le> version \<and> version < 41
      then Returned (t ! nat (ErrCor_to_int level) ! nat version)
      else Undefined)"

section \<open>Mode classification\<close>

text \<open>
  The value of a \<^verbatim>\<open>char\<close> as the comparisons see it (a signed byte, as on x86-64;
  with an unsigned \<^verbatim>\<open>char\<close> the three tests below give the same answers).
\<close>

definition char_code :: "char \<Rightarrow> int" where
  "char_code c = (if of_char c < (128::nat) then int (of_char c) else int (of_char c) - 256)"

definition isNumeric :: "string \<Rightarrow> bool" where
  "isNumeric text = list_all (\<lambda>ch. \<not> (char_code ch < char_code CHR ''0'' \<or> char_code ch > char_code CHR ''9'')) text"

text \<open>\<^verbatim>\<open>std::string::find(ch)\<close>: the first position of the character, or \<^verbatim>\<open>npos\<close>.\<close>

fun str_find :: "string \<Rightarrow> char \<Rightarrow> nat option" where
  "str_find [] ch = None"
| "str_find (c # cs) ch = (if c = ch then Some 0 else map_option Suc (str_find cs ch))"

definition isAlphanumeric :: "string \<Rightarrow> bool" where
  "isAlphanumeric text = list_all (\<lambda>ch. \<not> (str_find kAlphanumericChar' ch = None)) text"

definition isByte :: "string \<Rightarrow> bool" where
  "isByte text = list_all (\<lambda>ch. \<not> (char_code ch < char_code CHR '' '' \<or> char_code ch > char_code CHR ''~'')) text"

definition isKanji :: "string \<Rightarrow> bool" where
  "isKanji text = False"

text \<open>
  \<^verbatim>\<open>determineEncoding\<close> assigns \<^verbatim>\<open>kEncoding_\<close> in one of four branches and has no
  final \<^verbatim>\<open>else\<close>: when no test succeeds the member keeps what it held.
\<close>

definition determineEncoding :: "string \<Rightarrow> QRCode \<Rightarrow> QRCode" where
  "determineEncoding text st =
     (if isNumeric text then st\<lparr>kEncoding' := Some kNumeric'\<rparr>
      else if isAlphanumeric text then st\<lparr>kEncoding' := Some kAlpha'\<rparr>
      else if isByte text then st\<lparr>kEncoding' := Some kByte'\<rparr>
      else if isKanji text then st\<lparr>kEncoding' := Some kKanji'\<rparr>
      else st)"

section \<open>Capacity and version selection\<close>

text \<open>
  \<^verbatim>\<open>getTotalModules\<close> computes in \<^verbatim>\<open>double\<close> (\<^verbatim>\<open>pow\<close>) and converts back; all the
  values are small integers, which \<^verbatim>\<open>double\<close> represents exactly.
\<close>

definition getTotalModules :: "int \<Rightarrow> int" where
  "getTotalModules version =
     (if version = 1 then 21 * 21 - 3 * 8 * 8 - 2 * 15 - 1 - 2 * 5
      else let alignBlocks = cdiv version 7 + 2 in
        (version * 4 + 17)\<^sup>2 - 3 * 8 * 8 - (alignBlocks\<^sup>2 - 3) * 5 * 5 - 2 * (version * 4 + 1)
        + (alignBlocks - 2) * 5 * 2 - 2 * 15 - 1 - (if version > 6 then 2 * 3 * 6 else 0))"

definition getTotalCodewords :: "int \<Rightarrow> ErrCor \<Rightarrow> int outcome" where
  "getTotalCodewords version error_level =
     andThen (table_at kErr_corr_blocks' error_level version) (\<lambda>b.
     andThen (table_at kEC_codewords_per_block' error_level version) (\<lambda>e.
       Returned (drop_bit 3 (getTotalModules version) - b * e)))"

definition numericCapacity :: "int \<Rightarrow> int" where
  "numericCapacity bits =
     cdiv bits 10 * 3 + (if cmod bits 10 > 6 then 2 else if cmod bits 10 > 3 then 1 else 0)"

definition alphanumbericCapacity :: "int \<Rightarrow> int" where
  "alphanumbericCapacity bits = cdiv bits 11 * 2 + (if cmod bits 11 > 5 then 1 else 0)"

definition byteCapacity :: "int \<Rightarrow> int" where
  "byteCapacity bits = drop_bit 3 bits"

definition kanjiCapacity :: "int \<Rightarrow> int" where
  "kanjiCapacity bits = cdiv bits 13"

definition getCapacity :: "QRCode \<Rightarrow> int \<Rightarrow> ErrCor \<Rightarrow> int outcome" where
  "getCapacity st version error_level =
     andThen (getTotalCodewords version error_level) (\<lambda>data_codewords.
     andThen (deref (kEncoding' st)) (\<lambda>enc.
     andThen (getBitsPerChar enc version) (\<lambda>bits_per_char.
       let available_bits = push_bit 3 data_codewords - bits_per_char - 4;
           mode = getEncodingMode enc
       in if mode = 1 then Returned (numericCapacity available_bits)
          else if mode = 2 then Returned (alphanumbericCapacity available_bits)
          else if mode = 4 then Returned (byteCapacity available_bits)
          else if mode = 7 then Returned (byteCapacity available_bits)
          else if mode = 8 then Returned (kanjiCapacity available_bits)
          else Throws (logic_error ''Invalid encoding mode.''))))"

text \<open>
  The inner loop of \<^verbatim>\<open>setVersionAndErrorLevel\<close>, from level \<open>j\<close> down to the floor:
  the first level of version \<open>i\<close> that fits, if any.
\<close>

function levelLoop :: "QRCode \<Rightarrow> int \<Rightarrow> int \<Rightarrow> int \<Rightarrow> int \<Rightarrow> ErrCor option outcome" where
  "levelLoop st length_arg min_j i j =
     (if j \<ge> min_j then
        andThen (getCapacity st i (ErrCor_of_int j)) (\<lambda>capacity.
          if capacity \<ge> length_arg then Returned (Some (ErrCor_of_int j))
          else levelLoop st length_arg min_j i (j - 1))
      else Returned None)"
  by pat_completeness auto
termination
  by (relation "measure (\<lambda>(st, l, m, i, j). nat (j + 1 - m))") auto

function versionLoop :: "QRCode \<Rightarrow> int \<Rightarrow> int \<Rightarrow> int \<Rightarrow> QRCode outcome" where
  "versionLoop st length_arg min_j i =
     (if i \<le> 40 then
        andThen (levelLoop st length_arg min_j i (ErrCor_to_int kHigh)) (\<lambda>r.
          case r of
            Some level \<Rightarrow> Returned (st\<lparr>version' := i, correctionLevel' := level\<rparr>)
          | None \<Rightarrow> versionLoop st length_arg min_j (i + 1))
      else Throws (logic_error ''String too long!''))"
  by pat_completeness auto
termination
  by (relation "measure (\<lambda>(st, l, m, i). nat (41 - i))") auto

definition setVersionAndErrorLevel :: "int \<Rightarrow> int \<Rightarrow> ErrCor \<Rightarrow> QRCode \<Rightarrow> QRCode outcome" where
  "setVersionAndErrorLevel mode length_arg min_err_cor st =
     versionLoop st length_arg (ErrCor_to_int min_err_cor) 1"

section \<open>Vectors and counted loops\<close>

text \<open>
  \<^verbatim>\<open>std::vector::at\<close> checks its index and throws \<^verbatim>\<open>std::out_of_range\<close>; an index
  that was negative before its conversion to \<^verbatim>\<open>std::size_t\<close> is out of range too.
\<close>

definition vec_at :: "'a list \<Rightarrow> int \<Rightarrow> 'a outcome" where
  "vec_at xs i = (if 0 \<le> i \<and> i < int (length xs) then Returned (xs ! nat i) else Throws out_of_range)"

definition vec_set :: "'a list \<Rightarrow> int \<Rightarrow> 'a \<Rightarrow> 'a list outcome" where
  "vec_set xs i v =
     (if 0 \<le> i \<and> i < int (length xs) then Returned (xs[nat i := v]) else Throws out_of_range)"

text \<open>\<^verbatim>\<open>grid.at(y).at(x)\<close>, read and written.\<close>

definition grid_at :: "'a list list \<Rightarrow> int \<Rightarrow> int \<Rightarrow> 'a outcome" where
  "grid_at g x y = andThen (vec_at g y) (\<lambda>row. vec_at row x)"

definition grid_set :: "'a list list \<Rightarrow> int \<Rightarrow> int \<Rightarrow> 'a \<Rightarrow> 'a list list outcome" where
  "grid_set g x y v =
     andThen (vec_at g y) (\<lambda>row. andThen (vec_set row x v) (\<lambda>row'. vec_set g y row'))"

text \<open>
  A \<^verbatim>\<open>for\<close> loop whose bounds the body does not change: the body runs once for each
  index in turn, and an exception or undefined behaviour in the body ends the loop.
\<close>

primrec forLoop :: "'i list \<Rightarrow> ('i \<Rightarrow> 's \<Rightarrow> 's outcome) \<Rightarrow> 's \<Rightarrow> 's outcome" where
  "forLoop [] body s = Returned s"
| "forLoop (i # idx) body s = andThen (body i s) (forLoop idx body)"

section \<open>Bit buffer and segment encoder\<close>

type_synonym BitBuffer = "bool list"

definition appendBits :: "32 word \<Rightarrow> int \<Rightarrow> BitBuffer \<Rightarrow> BitBuffer outcome" where
  "appendBits val len buffer =
     (if len < 0 \<or> len > 31 \<or> drop_bit (nat len) val \<noteq> 0
      then Throws (logic_error ''Out of range'')
      else Returned (buffer @ map (\<lambda>i. bit val i) (rev [0..<nat len])))"

text \<open>
  The Numeric loop of \<^verbatim>\<open>encodeText\<close>, with its two counters \<^verbatim>\<open>group\<close> and
  \<^verbatim>\<open>max\<close> (here \<open>grp\<close> and \<open>mx\<close>), and the code after it for the digits left over.
\<close>

fun numericLoop :: "string \<Rightarrow> int \<Rightarrow> int \<Rightarrow> BitBuffer \<Rightarrow> (int \<times> int \<times> BitBuffer) outcome" where
  "numericLoop [] grp mx buffer = Returned (grp, mx, buffer)"
| "numericLoop (ch # text) grp mx buffer =
     (if char_code ch < char_code CHR ''0'' \<or> char_code ch > char_code CHR ''9''
      then Throws (logic_error ''Numeric: Contains non numeric characters!'')
      else let grp' = grp * 10 + (char_code ch - char_code CHR ''0''); mx' = mx + 1 in
        if mx' = 3
        then andThen (appendBits (word_of_int grp') 10 buffer) (\<lambda>buffer'. numericLoop text 0 0 buffer')
        else numericLoop text grp' mx' buffer)"

definition encodeNumeric :: "string \<Rightarrow> BitBuffer \<Rightarrow> BitBuffer outcome" where
  "encodeNumeric text buffer =
     andThen (numericLoop text 0 0 buffer) (\<lambda>(grp, mx, buffer').
       if mx > 0 then appendBits (word_of_int grp) (mx * 3 + 1) buffer' else Returned buffer')"

text \<open>
  The Alphanumeric loop. \<^verbatim>\<open>find\<close> returns a \<^verbatim>\<open>std::size_t\<close>; \<^verbatim>\<open>npos\<close>, the
  largest one, acts as \<open>-1\<close> once the sum is stored in the \<^verbatim>\<open>int group\<close>.
\<close>

definition find_index :: "char \<Rightarrow> int" where
  "find_index ch = (case str_find kAlphanumericChar' ch of None \<Rightarrow> -1 | Some i \<Rightarrow> int i)"

fun alphaLoop :: "string \<Rightarrow> int \<Rightarrow> int \<Rightarrow> BitBuffer \<Rightarrow> (int \<times> int \<times> BitBuffer) outcome" where
  "alphaLoop [] grp mx buffer = Returned (grp, mx, buffer)"
| "alphaLoop (ch # text) grp mx buffer =
     (let grp' = grp * 45 + find_index ch; mx' = mx + 1 in
        if mx' = 2
        then andThen (appendBits (word_of_int grp') 11 buffer) (\<lambda>buffer'. alphaLoop text 0 0 buffer')
        else alphaLoop text grp' mx' buffer)"

definition encodeAlphanumeric :: "string \<Rightarrow> BitBuffer \<Rightarrow> BitBuffer outcome" where
  "encodeAlphanumeric text buffer =
     andThen (alphaLoop text 0 0 buffer) (\<lambda>(grp, mx, buffer').
       if mx > 0 then appendBits (word_of_int grp) 6 buffer' else Returned buffer')"

definition encodeByte :: "string \<Rightarrow> BitBuffer \<Rightarrow> BitBuffer outcome" where
  "encodeByte text buffer = forLoop text (\<lambda>ch. appendBits (word_of_int (char_code ch)) 8) buffer"

text \<open>
  The padding loop: bytes \<^verbatim>\<open>0xEC\<close> and \<^verbatim>\<open>0x11\<close> in turn while the buffer is shorter
  than the capacity, a \<^verbatim>\<open>std::size_t\<close>.
\<close>

function padLoop :: "64 word \<Rightarrow> uint8 \<Rightarrow> BitBuffer \<Rightarrow> BitBuffer outcome" where
  "padLoop capacity byte buffer =
     (if length buffer < unat capacity
      then andThen (appendBits (ucast byte) 8 buffer)
             (padLoop capacity (byte XOR (0xEC XOR 0x11)))
      else Returned buffer)"
  by pat_completeness auto
termination
  by (relation "measure (\<lambda>(capacity, byte, buffer). unat capacity - length buffer)")
     (auto simp: appendBits_def split: if_splits)

text \<open>Packing the bits into bytes, most significant bit first.\<close>

definition packBits :: "BitBuffer \<Rightarrow> uint8 list outcome" where
  "packBits buffer =
     forLoop [0..<length buffer]
       (\<lambda>i codewords.
          andThen (vec_at codewords (int (drop_bit 3 i))) (\<lambda>old.
            vec_set codewords (int (drop_bit 3 i))
              (old OR push_bit (7 - (i AND 7)) (if buffer ! i then 1 else 0))))
       (replicate (length buffer div 8) 0)"

definition encodeText :: "string \<Rightarrow> QRCode \<Rightarrow> uint8 list outcome" where
  "encodeText text st =
     andThen (deref (kEncoding' st)) (\<lambda>enc.
     let mode = getEncodingMode enc in
     andThen (appendBits (word_of_int mode) 4 []) (\<lambda>b1.
     andThen (getBitsPerChar enc (version' st)) (\<lambda>width.
     andThen (appendBits (word_of_nat (length text)) width b1) (\<lambda>b2.
     andThen (if mode = 1 then encodeNumeric text b2
              else if mode = 2 then encodeAlphanumeric text b2
              else if mode = 4 then encodeByte text b2
              else Returned b2) (\<lambda>b3.
     andThen (getTotalCodewords (version' st) (correctionLevel' st)) (\<lambda>total.
     let capacity = (word_of_int total :: 64 word) * 8 in
     andThen (appendBits 0 (min 4 (sint (ucast (capacity - word_of_nat (length b3)) :: 32 word))) b3) (\<lambda>b4.
     andThen (appendBits 0 (cmod (8 - int (length b4 mod 8)) 8) b4) (\<lambda>b5.
     andThen (padLoop capacity 0xEC b5) packBits))))))))"

section \<open>Reed-Solomon arithmetic\<close>

text \<open>The loop of \<^verbatim>\<open>rsGenerateLogExp\<close>; \<^verbatim>\<open>val\<close> is an \<^verbatim>\<open>int\<close>.\<close>

function logExpLoop :: "int \<Rightarrow> int \<Rightarrow> uint8 list \<Rightarrow> uint8 list \<Rightarrow> (uint8 list \<times> uint8 list) outcome" where
  "logExpLoop e val lg ex =
     (if e < 256 then
        let val' = (if val > 127 then push_bit 1 val XOR 285 else push_bit 1 val) in
        andThen (vec_set lg val' (word_of_int (cmod e 255))) (\<lambda>lg'.
        andThen (vec_set ex (cmod e 255) (word_of_int val')) (\<lambda>ex'.
          logExpLoop (e + 1) val' lg' ex'))
      else Returned (lg, ex))"
  by pat_completeness auto
termination
  by (relation "measure (\<lambda>(e, val, lg, ex). nat (256 - e))") auto

definition rsGenerateLogExp :: "QRCode \<Rightarrow> QRCode outcome" where
  "rsGenerateLogExp st =
     andThen (logExpLoop 1 1 (rsLog' st) (rsExp' st)) (\<lambda>(lg, ex).
     andThen (vec_set ex 255 1) (\<lambda>ex'.
       Returned (st\<lparr>rsLog' := lg, rsExp' := ex'\<rparr>)))"

definition reedSolomonMult :: "QRCode \<Rightarrow> uint8 \<Rightarrow> uint8 \<Rightarrow> uint8 outcome" where
  "reedSolomonMult st x y =
     (if x \<noteq> 0 \<and> y \<noteq> 0 then
        andThen (vec_at (rsLog' st) (uint x)) (\<lambda>lx.
        andThen (vec_at (rsLog' st) (uint y)) (\<lambda>ly.
          vec_at (rsExp' st) (cmod (uint lx + uint ly) 255)))
      else Returned 0)"

definition reedSolomonDiv :: "QRCode \<Rightarrow> uint8 \<Rightarrow> uint8 \<Rightarrow> uint8 outcome" where
  "reedSolomonDiv st x y =
     andThen (vec_at (rsLog' st) (uint x)) (\<lambda>lx.
     andThen (vec_at (rsLog' st) (uint y)) (\<lambda>ly.
       vec_at (rsExp' st) (cmod (uint lx + uint ly) 255)))"

text \<open>
  \<^verbatim>\<open>reedSolomonPolyMult\<close>. The length of the product is computed in \<^verbatim>\<open>std::size_t\<close>:
  for two empty polynomials it wraps to the largest value and the vector cannot be made.
\<close>

definition polyMultCoeff :: "QRCode \<Rightarrow> uint8 list \<Rightarrow> uint8 list \<Rightarrow> nat \<Rightarrow> uint8 outcome" where
  "polyMultCoeff st poly1 poly2 index =
     forLoop [0..<Suc index]
       (\<lambda>p1index coeff.
          let p2index = index - p1index in
          if p1index < length poly1 \<and> p2index < length poly2
          then andThen (vec_at poly1 (int p1index)) (\<lambda>a.
               andThen (vec_at poly2 (int p2index)) (\<lambda>b.
               andThen (reedSolomonMult st a b) (\<lambda>m. Returned (coeff XOR m))))
          else Returned coeff)
       0"

definition reedSolomonPolyMult :: "QRCode \<Rightarrow> uint8 list \<Rightarrow> uint8 list \<Rightarrow> uint8 list outcome" where
  "reedSolomonPolyMult st poly1 poly2 =
     (if poly1 = [] \<and> poly2 = [] then Throws length_error
      else forLoop [0..<length poly1 + length poly2 - 1]
             (\<lambda>index coeffs.
                andThen (polyMultCoeff st poly1 poly2 index) (\<lambda>coeff.
                  vec_set coeffs (int index) coeff))
             (replicate (length poly1 + length poly2 - 1) 0))"

text \<open>
  \<^verbatim>\<open>reedSolomonPolyDiv\<close>. The number of rounds is a \<^verbatim>\<open>std::size_t\<close> difference;
  \<^verbatim>\<open>remainder[0]\<close> is unchecked, and \<^verbatim>\<open>std::copy\<close> of a product longer than the
  remainder writes past its end.
\<close>

function polyDivLoop :: "QRCode \<Rightarrow> uint8 list \<Rightarrow> nat \<Rightarrow> nat \<Rightarrow> uint8 list \<Rightarrow> uint8 list outcome" where
  "polyDivLoop st divisor quotientLenth count remainder =
     (if count < quotientLenth then
        (case remainder of
           [] \<Rightarrow> Undefined
         | r0 # rest \<Rightarrow>
             if r0 \<noteq> 0 then
               andThen (vec_at divisor 0) (\<lambda>d0.
               andThen (reedSolomonDiv st r0 d0) (\<lambda>factor.
               andThen (reedSolomonPolyMult st divisor [factor]) (\<lambda>product.
                 if length product \<le> length remainder then
                   let subtr = product @ replicate (length remainder - length product) 0;
                       remainder' = map (\<lambda>(a, b). a XOR b) (zip remainder subtr)
                   in polyDivLoop st divisor quotientLenth (count + 1) (tl remainder')
                 else Undefined)))
             else polyDivLoop st divisor quotientLenth (count + 1) rest)
      else Returned remainder)"
  by pat_completeness auto
termination
  by (relation "measure (\<lambda>(st, divisor, n, count, remainder). n - count)") auto

definition reedSolomonPolyDiv :: "QRCode \<Rightarrow> uint8 list \<Rightarrow> uint8 list \<Rightarrow> uint8 list outcome" where
  "reedSolomonPolyDiv st dividend divisor =
     polyDivLoop st divisor
       (unat ((word_of_nat (length dividend) :: 64 word) - word_of_nat (length divisor) + 1))
       0 dividend"

text \<open>\<^verbatim>\<open>rsGeneratePoly\<close>; the loop compares a \<^verbatim>\<open>std::size_t\<close> counter with the degree.\<close>

function generatePolyLoop :: "QRCode \<Rightarrow> nat \<Rightarrow> nat \<Rightarrow> uint8 list \<Rightarrow> uint8 list outcome" where
  "generatePolyLoop st degree i lastPoly =
     (if i < degree then
        andThen (vec_at (rsExp' st) (int i)) (\<lambda>a.
        andThen (reedSolomonPolyMult st lastPoly [1, a]) (\<lambda>lastPoly'.
          generatePolyLoop st degree (i + 1) lastPoly'))
      else Returned lastPoly)"
  by pat_completeness auto
termination
  by (relation "measure (\<lambda>(st, degree, i, lastPoly). degree - i)") auto

definition rsGeneratePoly :: "QRCode \<Rightarrow> int \<Rightarrow> uint8 list outcome" where
  "rsGeneratePoly st degree = generatePolyLoop st (unat (word_of_int degree :: 64 word)) 0 [1]"

definition generateEDC :: "QRCode \<Rightarrow> uint8 list \<Rightarrow> int \<Rightarrow> uint8 list outcome" where
  "generateEDC st data codewords =
     (if codewords < 0 then Throws length_error
      else if int (length data) > codewords then Undefined
      else let degree = codewords - int (length data);
               messagePoly = data @ replicate (nat codewords - length data) 0
           in andThen (rsGeneratePoly st degree) (\<lambda>g. reedSolomonPolyDiv st messagePoly g))"

text \<open>
  The first loop of \<^verbatim>\<open>addEDCInterleave\<close>: block \<open>i\<close> takes its data codewords from
  position \<open>j\<close> on (an iterator range, unchecked), and gets its error correction codewords
  appended, after a padding zero for a short block. \<open>blockDataLen\<close> is the length of the
  range, as the source computes it.
\<close>

definition blockDataLen :: "int \<Rightarrow> int \<Rightarrow> int \<Rightarrow> int \<Rightarrow> int" where
  "blockDataLen short_block_len ECC_per_block num_short_blocks i =
     short_block_len - ECC_per_block + (if i < num_short_blocks then 0 else 1)"

definition splitBlocks ::
  "QRCode \<Rightarrow> uint8 list \<Rightarrow> int \<Rightarrow> int \<Rightarrow> int \<Rightarrow> int \<Rightarrow> uint8 list list outcome" where
  "splitBlocks st data num_blocks ECC_per_block num_short_blocks short_block_len =
     andThen
       (forLoop [0..num_blocks - 1]
          (\<lambda>i (j, split_blocks).
             let n = blockDataLen short_block_len ECC_per_block num_short_blocks i in
             if j < 0 \<or> n < 0 \<or> j + n > int (length data) then Undefined
             else let block = take (nat n) (drop (nat j) data) in
               andThen (generateEDC st block (short_block_len + (if i < num_short_blocks then 0 else 1)))
                 (\<lambda>edc. Returned (j + int (length block),
                      split_blocks @ [block @ (if i < num_short_blocks then [0] else []) @ edc])))
          (0, []))
       (\<lambda>(j, split_blocks). Returned split_blocks)"

text \<open>The second loop: one byte of every block in turn, leaving out the padding.\<close>

definition interleave :: "uint8 list list \<Rightarrow> int \<Rightarrow> int \<Rightarrow> int \<Rightarrow> uint8 list outcome" where
  "interleave split_blocks ECC_per_block num_short_blocks short_block_len =
     andThen (vec_at split_blocks 0) (\<lambda>first.
       forLoop [0..<length first]
         (\<lambda>i. forLoop [0..<length split_blocks]
            (\<lambda>j EDC_interleave.
               if int i \<noteq> short_block_len - ECC_per_block \<or> int j \<ge> num_short_blocks
               then andThen (grid_at split_blocks (int i) (int j)) (\<lambda>b.
                      Returned (EDC_interleave @ [b]))
               else Returned EDC_interleave))
         [])"

definition addEDCInterleave :: "uint8 list \<Rightarrow> QRCode \<Rightarrow> (uint8 list \<times> QRCode) outcome" where
  "addEDCInterleave data st =
     andThen (rsGenerateLogExp st) (\<lambda>st'.
     andThen (table_at kErr_corr_blocks' (correctionLevel' st') (version' st')) (\<lambda>num_blocks.
     andThen (table_at kEC_codewords_per_block' (correctionLevel' st') (version' st')) (\<lambda>ECC_per_block.
     let total_codewords = drop_bit 3 (getTotalModules (version' st')) in
     if num_blocks = 0 then Undefined
     else
       let num_short_blocks = num_blocks - cmod total_codewords num_blocks;
           short_block_len = cdiv total_codewords num_blocks
       in andThen (splitBlocks st' data num_blocks ECC_per_block num_short_blocks short_block_len)
            (\<lambda>split_blocks.
          andThen (interleave split_blocks ECC_per_block num_short_blocks short_block_len)
            (\<lambda>EDC_interleave. Returned (EDC_interleave, st'))))))"

section \<open>Function patterns\<close>

definition setFuncBlocks :: "int \<Rightarrow> int \<Rightarrow> bool \<Rightarrow> QRCode \<Rightarrow> QRCode outcome" where
  "setFuncBlocks x y isBlock st =
     andThen (grid_set (blocks' st) x y isBlock) (\<lambda>b.
     andThen (grid_set (funcBlock' st) x y True) (\<lambda>f.
       Returned (st\<lparr>blocks' := b, funcBlock' := f\<rparr>)))"

definition setFinderBlocks :: "int \<Rightarrow> int \<Rightarrow> QRCode \<Rightarrow> QRCode outcome" where
  "setFinderBlocks x y =
     forLoop [-4..4] (\<lambda>distance_y.
       forLoop [-4..4] (\<lambda>distance_x st.
         let distance = max \<bar>distance_x\<bar> \<bar>distance_y\<bar>;
             block_x = x + distance_x;
             block_y = y + distance_y
         in if 0 \<le> block_x \<and> block_x < size' st \<and> 0 \<le> block_y \<and> block_y < size' st
            then setFuncBlocks block_x block_y (distance \<noteq> 2 \<and> distance \<noteq> 4) st
            else Returned st))"

definition setAlignmentBlocks :: "int \<Rightarrow> int \<Rightarrow> QRCode \<Rightarrow> QRCode outcome" where
  "setAlignmentBlocks x y =
     forLoop [-2..2] (\<lambda>distance_y.
       forLoop [-2..2] (\<lambda>distance_x.
         setFuncBlocks (x + distance_x) (y + distance_y)
           (max \<bar>distance_x\<bar> \<bar>distance_y\<bar> \<noteq> 1)))"

text \<open>
  \<^verbatim>\<open>determineAlignmentPos\<close>: \<^verbatim>\<open>std::floor\<close> and \<^verbatim>\<open>std::ceil\<close> are applied to
  quotients of \<^verbatim>\<open>int\<close>s, which are integers already.
\<close>

definition determineAlignmentPos :: "QRCode \<Rightarrow> int list outcome" where
  "determineAlignmentPos st =
     (if version' st = 1 then Returned []
      else let intervals = cdiv (version' st) 7 + 1;
               distance = 4 * version' st + 4
           in if intervals = 0 then Undefined
              else let step = cdiv (cdiv distance intervals) 2 * 2 in
                Returned (6 # map (\<lambda>i. distance + 6 - (intervals - 1 - i) * step) [0..intervals - 1]))"

definition drawAlignmentBlocks :: "QRCode \<Rightarrow> QRCode outcome" where
  "drawAlignmentBlocks st =
     andThen (determineAlignmentPos st) (\<lambda>aligment_pattern.
       let intervals = length aligment_pattern in
       forLoop [0..<intervals] (\<lambda>i.
         forLoop [0..<intervals] (\<lambda>j st'.
           if \<not> ((i = 0 \<and> j = 0) \<or> (i = 0 \<and> j = intervals - 1) \<or> (i = intervals - 1 \<and> j = 0))
           then andThen (vec_at aligment_pattern (int i)) (\<lambda>a.
                andThen (vec_at aligment_pattern (int j)) (\<lambda>b.
                  setAlignmentBlocks a b st'))
           else Returned st')) st)"

fun formatBits :: "ErrCor \<Rightarrow> int" where
  "formatBits kLow = 1"
| "formatBits kMedium = 0"
| "formatBits kQuartile = 3"
| "formatBits kHigh = 2"

definition drawFormat :: "int \<Rightarrow> QRCode \<Rightarrow> QRCode outcome" where
  "drawFormat msk st =
     (let data = push_bit 3 (formatBits (correctionLevel' st)) OR msk;
          remainder = ((\<lambda>r. push_bit 1 r XOR (drop_bit 9 r * 0x537)) ^^ 10) data;
          bits = (push_bit 10 data OR remainder) XOR 0x5412
      in
      andThen (forLoop [0..<9] (\<lambda>i st'.
                 if i \<le> 5 then setFuncBlocks 8 (int i) (bit bits i) st'
                 else if i = 6 then Returned st'
                 else setFuncBlocks 8 (int i) (bit bits (i - 1)) st') st) (\<lambda>st1.
      andThen (setFuncBlocks 7 8 (bit bits 8) st1) (\<lambda>st2.
      andThen (forLoop [9..<15] (\<lambda>i. setFuncBlocks (14 - int i) 8 (bit bits i)) st2) (\<lambda>st3.
      andThen (forLoop [0..<8] (\<lambda>i st'. setFuncBlocks (size' st' - 1 - int i) 8 (bit bits i) st') st3) (\<lambda>st4.
      andThen (forLoop [8..<15] (\<lambda>i st'. setFuncBlocks 8 (size' st' - 15 + int i) (bit bits i) st') st4) (\<lambda>st5.
        setFuncBlocks 8 (size' st5 - 8) True st5))))))"

definition drawVersion :: "QRCode \<Rightarrow> QRCode outcome" where
  "drawVersion st =
     (if version' st < 7 then Returned st
      else
        let remainder = ((\<lambda>r. push_bit 1 r XOR (drop_bit 11 r * 0x1F25)) ^^ 12) (version' st);
            version_bits = push_bit 12 (version' st) OR remainder
        in forLoop [0..<18] (\<lambda>i st'.
             andThen (setFuncBlocks (size' st' - 11 + int (i mod 3)) (int (i div 3)) (bit version_bits i) st')
               (\<lambda>st''. setFuncBlocks (int (i div 3)) (size' st'' - 11 + int (i mod 3))
                         (bit version_bits i) st'')) st)"

definition drawPatterns :: "QRCode \<Rightarrow> QRCode outcome" where
  "drawPatterns st =
     andThen (forLoop [0..size' st - 1] (\<lambda>i st'.
                andThen (setFuncBlocks i 6 (cmod i 2 = 0) st') (setFuncBlocks 6 i (cmod i 2 = 0))) st)
       (\<lambda>st1.
     andThen (setFinderBlocks 3 3 st1) (\<lambda>st2.
     andThen (setFinderBlocks (size' st2 - 4) 3 st2) (\<lambda>st3.
     andThen (setFinderBlocks 3 (size' st3 - 4) st3) (\<lambda>st4.
     andThen (drawAlignmentBlocks st4) (\<lambda>st5.
     andThen (drawFormat (mask' st5) st5) drawVersion)))))"

section \<open>Codeword placement and masking\<close>

text \<open>One module of \<^verbatim>\<open>drawCodewords\<close>: the body of the innermost loop.\<close>

definition placeBit :: "int \<Rightarrow> int \<Rightarrow> int \<Rightarrow> nat \<times> QRCode \<Rightarrow> (nat \<times> QRCode) outcome" where
  "placeBit right vert j = (\<lambda>(i, st).
     let x = right - j;
         up = ((right + 1) AND 2 = 0);
         y = (if up then size' st - 1 - vert else vert)
     in andThen (grid_at (funcBlock' st) x y) (\<lambda>f.
          if \<not> f \<and> i < length (data' st) * 8
          then andThen (vec_at (data' st) (int (drop_bit 3 i))) (\<lambda>byte.
               andThen (grid_set (blocks' st) x y (bit byte (7 - (i AND 7)))) (\<lambda>b.
                 Returned (i + 1, st\<lparr>blocks' := b\<rparr>)))
          else Returned (i, st)))"

text \<open>The outer loop changes its own counter (column 6 is skipped), so it is a recursion.\<close>

function codewordColumns :: "int \<Rightarrow> nat \<times> QRCode \<Rightarrow> QRCode outcome" where
  "codewordColumns right ist =
     (if right \<ge> 1 then
        let right' = (if right = 6 then 5 else right) in
        andThen (forLoop [0..size' (snd ist) - 1] (\<lambda>vert. forLoop [0, 1] (placeBit right' vert)) ist)
          (codewordColumns (right' - 2))
      else Returned (snd ist))"
  by pat_completeness auto
termination
  by (relation "measure (\<lambda>(right, ist). nat right)") auto

definition drawCodewords :: "QRCode \<Rightarrow> QRCode outcome" where
  "drawCodewords st = codewordColumns (size' st - 1) (0, st)"

text \<open>
  The \<^verbatim>\<open>switch\<close> of \<^verbatim>\<open>QRCode::mask\<close> over the eight patterns, and the routine
  itself (\<open>mask_fn\<close> here, \<open>mask\<close> being a constant of the library).
\<close>

definition maskSwap :: "int \<Rightarrow> nat \<Rightarrow> nat \<Rightarrow> bool" where
  "maskSwap m x y =
     (if m = 0 then (x + y) mod 2 = 0
      else if m = 1 then y mod 2 = 0
      else if m = 2 then x mod 3 = 0
      else if m = 3 then (x + y) mod 3 = 0
      else if m = 4 then (x div 3 + y div 2) mod 2 = 0
      else if m = 5 then x * y mod 2 + x * y mod 3 = 0
      else if m = 6 then (x * y mod 2 + x * y mod 3) mod 2 = 0
      else ((x + y) mod 2 + x * y mod 3) mod 2 = 0)"

definition mask_fn :: "int \<Rightarrow> QRCode \<Rightarrow> QRCode outcome" where
  "mask_fn m st =
     (if m < 0 \<or> m > 7 then Throws (logic_error ''Invalid mask.'')
      else let sz = unat (word_of_int (size' st) :: 64 word) in
        forLoop [0..<sz] (\<lambda>y.
          forLoop [0..<sz] (\<lambda>x st'.
            andThen (grid_at (blocks' st') (int x) (int y)) (\<lambda>b.
            andThen (grid_at (funcBlock' st') (int x) (int y)) (\<lambda>f.
            andThen (grid_set (blocks' st') (int x) (int y) (b \<noteq> (maskSwap m x y \<and> \<not> f))) (\<lambda>b'.
              Returned (st'\<lparr>blocks' := b'\<rparr>)))))) st)"

section \<open>The constructor\<close>

text \<open>
  \<open>raw\<close> is the storage the object is built in. The initialiser list sets the text, the
  level and the two tables, the vectors start empty; \<^verbatim>\<open>version_\<close>, \<^verbatim>\<open>size_\<close>,
  \<^verbatim>\<open>mask_\<close> and \<^verbatim>\<open>kEncoding_\<close> are not initialised and hold what the storage held
  until the body assigns them. \<^verbatim>\<open>text.length()\<close> becomes an \<^verbatim>\<open>int\<close> argument.
\<close>

definition size_to_int :: "nat \<Rightarrow> int" where
  "size_to_int n = sint (word_of_nat n :: 32 word)"

text \<open>
  The constructor in three named parts: the initialiser list with the first lines of the
  body (\<open>initialise\<close>, which stores the mask index the body has already replaced), the
  lines that set \<^verbatim>\<open>size_\<close> and allocate the two grids (\<open>allocate\<close>), and the calls.
\<close>

definition initialise :: "QRCode \<Rightarrow> string \<Rightarrow> ErrCor \<Rightarrow> int \<Rightarrow> QRCode" where
  "initialise raw text err msk =
     raw\<lparr>plain_text' := text, correctionLevel' := err,
         blocks' := [], funcBlock' := [], data' := [],
         rsLog' := replicate 256 0, rsExp' := replicate 256 0,
         mask' := msk\<rparr>"

definition allocate :: "QRCode \<Rightarrow> QRCode" where
  "allocate st =
     (let st' = st\<lparr>size' := 4 * version' st + 17\<rparr>;
          sz = nat (size' st')
      in st'\<lparr>blocks' := replicate sz (replicate sz False),
             funcBlock' := replicate sz (replicate sz False)\<rparr>)"

definition QRCode_ctor :: "QRCode \<Rightarrow> string \<Rightarrow> ErrCor \<Rightarrow> int \<Rightarrow> QRCode outcome" where
  "QRCode_ctor raw text err msk =
     (let msk' = (if msk < 0 \<or> msk > 7 then 0 else msk);
          st1 = determineEncoding text (initialise raw text err msk')
      in
      andThen (deref (kEncoding' st1)) (\<lambda>enc.
      andThen (setVersionAndErrorLevel (getEncodingMode enc) (size_to_int (length text)) err st1) (\<lambda>st2.
      andThen (drawPatterns (allocate st2)) (\<lambda>st5.
      andThen (encodeText text st5) (\<lambda>d.
      andThen (addEDCInterleave d (st5\<lparr>data' := d\<rparr>)) (\<lambda>(d', st6).
      andThen (drawCodewords (st6\<lparr>data' := d'\<rparr>)) (mask_fn msk')))))))"

subsection \<open>The selection order in the words of the specification\<close>





subsection \<open>Numeric segments in the words of the specification\<close>

text \<open>
  \<open>bitsOf n v\<close> is the value \<open>v\<close> written in \<open>n\<close> bits, most significant first.
  Digits are taken three at a time, each group written in 10 bits as its decimal value;
  two digits left over are written in 7 bits and one in 4.
\<close>

definition bitsOf :: "nat \<Rightarrow> nat \<Rightarrow> bool list" where
  "bitsOf n v = map (\<lambda>i. bit v i) (rev [0..<n])"

definition digit :: "char \<Rightarrow> nat" where
  "digit ch = nat (char_code ch - char_code CHR ''0'')"

fun numericGroups :: "nat list \<Rightarrow> bool list" where
  "numericGroups (a # b # c # ds) = bitsOf 10 (100 * a + 10 * b + c) @ numericGroups ds"
| "numericGroups [a, b] = bitsOf 7 (10 * a + b)"
| "numericGroups [a] = bitsOf 4 a"
| "numericGroups [] = []"

subsection \<open>Facts about the generated tables\<close>

text \<open>
  What the proofs need of the generated tables: their lengths, the logarithm of 1, and
  that the antilog table inverts the log table on the nonzero bytes; and a few entries.
\<close>

definition tables_ok :: "uint8 list \<Rightarrow> uint8 list \<Rightarrow> bool" where
  "tables_ok lg ex \<longleftrightarrow>
     length lg = 256 \<and> length ex = 256 \<and> lg ! 1 = 0 \<and>
     list_all (\<lambda>y. uint (lg ! y) < 255 \<and> ex ! nat (uint (lg ! y)) = word_of_nat y) [1..<256]"



definition tables_sample :: "uint8 list \<Rightarrow> uint8 list \<Rightarrow> bool" where
  "tables_sample lg ex \<longleftrightarrow>
     lg ! 2 = 1 \<and> lg ! 4 = 2 \<and> ex ! 0 = 1 \<and> ex ! 1 = 2 \<and> ex ! 2 = 4 \<and> ex ! 3 = 8"

text \<open>Both tables have their 256 entries, so no lookup of a byte is out of range.\<close>

definition tables256 :: "QRCode \<Rightarrow> bool" where
  "tables256 st \<longleftrightarrow> length (rsLog' st) = 256 \<and> length (rsExp' st) = 256"

subsection \<open>Reserved cells in the words of the specification\<close>

text \<open>
  A cell is reserved when the reservation mask \<^verbatim>\<open>funcBlock_\<close> marks it; \<open>module\<close>
  is the value of the module grid \<^verbatim>\<open>blocks_\<close> at a cell.
\<close>

definition reserved :: "QRCode \<Rightarrow> nat \<Rightarrow> nat \<Rightarrow> bool" where
  "reserved st x y \<longleftrightarrow>
     y < length (funcBlock' st) \<and> x < length (funcBlock' st ! y) \<and> funcBlock' st ! y ! x"

definition module :: "QRCode \<Rightarrow> nat \<Rightarrow> nat \<Rightarrow> bool" where
  "module st x y = blocks' st ! y ! x"

text \<open>A two by two symbol with one reserved cell, for evaluating the two steps.\<close>

definition grid2 :: QRCode where
  "grid2 = raw0\<lparr>size' := 2, blocks' := [[False, False], [False, False]],
                 funcBlock' := [[True, False], [False, False]], data' := [0xFF]\<rparr>"

text \<open>What codeword placement and masking keep: the reservation mask, and the modules it marks.\<close>

definition keeps_reserved :: "QRCode \<Rightarrow> QRCode \<Rightarrow> bool" where
  "keeps_reserved st s \<longleftrightarrow>
     (\<exists>b. s = st\<lparr>blocks' := b\<rparr>) \<and>
     (\<forall>x y. reserved st x y \<longrightarrow> module s x y = module st x y)"

subsection \<open>Drawing steps: what they keep and what they need\<close>

text \<open>
  \<open>timing_val\<close>: every reserved cell of row 6 and of column 6 outside the finder regions
  holds the timing value. \<open>timing_write_ok\<close>: a write that agrees with it. \<open>draws\<close>: a
  step that changes the two grids only, keeps reserved cells reserved and keeps
  \<open>timing_val\<close>. \<open>well_formed\<close>: a valid version, its size, and two square grids of that
  size. \<open>good P F\<close>: from a well-formed state that satisfies \<open>P\<close>, the step \<open>F\<close> returns a
  well-formed state and draws.
\<close>

definition timing_val :: "QRCode \<Rightarrow> bool" where
  "timing_val s \<longleftrightarrow>
     (\<forall>p::nat. 8 \<le> p \<and> int p + 8 < size' s \<longrightarrow>
        (reserved s p 6 \<longrightarrow> module s p 6 = even p) \<and>
        (reserved s 6 p \<longrightarrow> module s 6 p = even p))"

definition timing_write_ok :: "int \<Rightarrow> int \<Rightarrow> int \<Rightarrow> bool \<Rightarrow> bool" where
  "timing_write_ok sz x y v \<longleftrightarrow>
     (y = 6 \<and> 8 \<le> x \<and> x + 8 < sz \<longrightarrow> v = even x) \<and>
     (x = 6 \<and> 8 \<le> y \<and> y + 8 < sz \<longrightarrow> v = even y)"

definition draws :: "QRCode \<Rightarrow> QRCode \<Rightarrow> bool" where
  "draws s s' \<longleftrightarrow>
     (\<exists>b f. s' = s\<lparr>blocks' := b, funcBlock' := f\<rparr>) \<and>
     (\<forall>x y. reserved s x y \<longrightarrow> reserved s' x y) \<and>
     (timing_val s \<longrightarrow> timing_val s')"

definition square :: "int \<Rightarrow> 'a list list \<Rightarrow> bool" where
  "square n g \<longleftrightarrow> length g = nat n \<and> (\<forall>row \<in> set g. length row = nat n)"

definition well_formed :: "QRCode \<Rightarrow> bool" where
  "well_formed s \<longleftrightarrow>
     1 \<le> version' s \<and> version' s \<le> 40 \<and> size' s = 4 * version' s + 17 \<and>
     square (size' s) (blocks' s) \<and> square (size' s) (funcBlock' s)"

definition good :: "(QRCode \<Rightarrow> bool) \<Rightarrow> (QRCode \<Rightarrow> QRCode outcome) \<Rightarrow> bool" where
  "good P F \<longleftrightarrow>
     (\<forall>s. well_formed s \<and> P s \<longrightarrow> (\<exists>s'. F s = Returned s' \<and> well_formed s' \<and> draws s s'))"

definition finder_at :: "int \<Rightarrow> int \<Rightarrow> QRCode \<Rightarrow> bool" where
  "finder_at cx cy s \<longleftrightarrow>
     (cx = 3 \<and> cy = 3) \<or> (cx = size' s - 4 \<and> cy = 3) \<or> (cx = 3 \<and> cy = size' s - 4)"

definition track_ok :: "int \<Rightarrow> int \<Rightarrow> bool" where
  "track_ok v t \<longleftrightarrow> even t \<and> (t = 6 \<or> 9 \<le> t) \<and> t + 2 < 4 * v + 17"

definition centre_at :: "int \<Rightarrow> int \<Rightarrow> QRCode \<Rightarrow> bool" where
  "centre_at a b s \<longleftrightarrow> track_ok (version' s) a \<and> track_ok (version' s) b"

subsection \<open>The blocks of the split\<close>

text \<open>Where the data part of block \<open>k\<close> starts, and what the block is made of.\<close>

definition blockStart :: "int \<Rightarrow> int \<Rightarrow> int \<Rightarrow> nat \<Rightarrow> nat" where
  "blockStart short_block_len E num_short_blocks k =
     nat (int k * (short_block_len - E) + max 0 (int k - num_short_blocks))"

definition block_ok :: "uint8 list \<Rightarrow> int \<Rightarrow> int \<Rightarrow> int \<Rightarrow> nat \<Rightarrow> uint8 list \<Rightarrow> bool" where
  "block_ok data short_block_len E num_short_blocks k block \<longleftrightarrow>
     (\<exists>edc. length edc = nat E \<and>
        int (blockStart short_block_len E num_short_blocks k)
          + blockDataLen short_block_len E num_short_blocks (int k) \<le> int (length data) \<and>
        0 \<le> blockDataLen short_block_len E num_short_blocks (int k) \<and>
        block = take (nat (blockDataLen short_block_len E num_short_blocks (int k)))
                  (drop (blockStart short_block_len E num_short_blocks k) data)
                @ (if int k < num_short_blocks then [0] else []) @ edc)"

text \<open>What the proofs need of the two tables, for every version and level.\<close>

definition params_ok :: "int \<Rightarrow> ErrCor \<Rightarrow> bool" where
  "params_ok v l \<longleftrightarrow>
     (case table_at kErr_corr_blocks' l v of
        Returned B \<Rightarrow>
          (case table_at kEC_codewords_per_block' l v of
             Returned E \<Rightarrow>
               1 \<le> B \<and> 1 \<le> E \<and> E \<le> 256 \<and> E < cdiv (drop_bit 3 (getTotalModules v)) B \<and>
               0 \<le> drop_bit 3 (getTotalModules v) \<and> drop_bit 3 (getTotalModules v) < 2 ^ 16
           | _ \<Rightarrow> False)
      | _ \<Rightarrow> False)"

text \<open>The split of 62 data bytes, all equal to 1, at version 5 and level Quartile.\<close>

definition split_5Q :: "uint8 list list outcome" where
  "split_5Q =
     andThen (rsGenerateLogExp (raw0\<lparr>rsLog' := replicate 256 0, rsExp' := replicate 256 0\<rparr>))
       (\<lambda>st'. splitBlocks st' (replicate 62 1) 4 18 2 33)"

definition returned_blocks :: "uint8 list list outcome \<Rightarrow> uint8 list list" where
  "returned_blocks r = (case r of Returned blocks \<Rightarrow> blocks | _ \<Rightarrow> [])"

(*VERIFICATION*)

section \<open>Version and level selection\<close>





lemma ErrCor_to_int_range: "0 \<le> ErrCor_to_int l \<and> ErrCor_to_int l \<le> 3"
  by (cases l) simp_all







section \<open>Numeric segment encoding\<close>

lemma length_bitsOf: "length (bitsOf n v) = n"
  by (simp add: bitsOf_def)

lemma drop_bit_word_of_int_small:
  assumes "0 \<le> g" "g < 2 ^ n"
  shows "drop_bit n (word_of_int g :: 32 word) = 0"
proof (rule bit_eqI)
  fix i
  have "g div 2 ^ (n + i) = 0"
  proof -
    have "(2::int) ^ n \<le> 2 ^ (n + i)" by simp
    with assms have "g < 2 ^ (n + i)" by linarith
    with assms show ?thesis by (simp add: div_pos_pos_trivial)
  qed
  then have "\<not> bit g (n + i)" by (simp add: bit_iff_odd)
  then show "bit (drop_bit n (word_of_int g :: 32 word)) i = bit (0 :: 32 word) i"
    by (simp add: bit_drop_bit_eq bit_word_of_int_iff)
qed

lemma appendBits_value:
  assumes "0 \<le> g" "g < 2 ^ n" "n \<le> 31"
  shows "appendBits (word_of_int g) (int n) buffer = Returned (buffer @ bitsOf n (nat g))"
proof -
  have "bit (word_of_int g :: 32 word) i = bit (nat g) i" if "i < n" for i
    using that assms by (simp add: bit_word_of_int_iff bit_nat_iff)
  then have "map (bit (word_of_int g :: 32 word)) (rev [0..<n]) = bitsOf n (nat g)"
    by (simp add: bitsOf_def)
  with assms show ?thesis
    by (simp add: appendBits_def drop_bit_word_of_int_small)
qed

lemma isNumeric_Cons:
  "isNumeric (ch # text) \<longleftrightarrow> (48 \<le> char_code ch \<and> char_code ch \<le> 57) \<and> isNumeric text"
  by (auto simp: isNumeric_def char_code_def)

lemma digit_range:
  assumes "48 \<le> char_code ch" "char_code ch \<le> 57"
  shows "char_code ch - char_code CHR ''0'' = int (digit ch)" "digit ch < 10"
  using assms by (simp_all add: digit_def char_code_def)

lemma list_induct3 [case_names Nil One Two Three]:
  assumes "P []" "\<And>a. P [a]" "\<And>a b. P [a, b]" "\<And>a b c ds. P ds \<Longrightarrow> P (a # b # c # ds)"
  shows "P xs"
proof (induction "length xs" arbitrary: xs rule: less_induct)
  case less
  show ?case
  proof (cases xs)
    case Nil
    with assms(1) show ?thesis by simp
  next
    case (Cons a ys)
    show ?thesis
    proof (cases ys)
      case Nil
      with Cons assms(2) show ?thesis by simp
    next
      case (Cons b zs)
      show ?thesis
      proof (cases zs)
        case Nil
        with \<open>xs = a # ys\<close> \<open>ys = b # zs\<close> assms(3) show ?thesis by simp
      next
        case (Cons c ds)
        have "P ds" using less[of ds] \<open>xs = a # ys\<close> \<open>ys = b # zs\<close> Cons by simp
        with \<open>xs = a # ys\<close> \<open>ys = b # zs\<close> Cons assms(4) show ?thesis by simp
      qed
    qed
  qed
qed

lemma numericLoop_step:
  assumes "48 \<le> char_code ch" "char_code ch \<le> 57"
  shows "numericLoop (ch # text) grp mx buffer =
         (if mx + 1 = 3
          then andThen (appendBits (word_of_int (grp * 10 + int (digit ch))) 10 buffer)
                 (\<lambda>b. numericLoop text 0 0 b)
          else numericLoop text (grp * 10 + int (digit ch)) (mx + 1) buffer)"
  using assms digit_range(1)[OF assms] by (simp add: Let_def char_code_def)

lemma appendBits_nat:
  assumes "v < 2 ^ n" "n \<le> 31"
  shows "appendBits (word_of_nat v) (int n) buffer = Returned (buffer @ bitsOf n v)"
proof -
  have "int v < 2 ^ n" using assms(1) by (metis of_nat_less_iff of_nat_numeral of_nat_power)
  then show ?thesis using appendBits_value[of "int v" n buffer] assms(2) by simp
qed

text \<open>
  C5. For a text of ASCII digits, the Numeric branch of \<^verbatim>\<open>encodeText\<close> (its loop and
  the code for the digits left over) returns, and appends to the buffer exactly the
  groups of the specification: 10 bits for every three digits, holding the decimal value
  of the group, then 7 bits for a tail of two digits or 4 bits for a tail of one.
\<close>

theorem encodeNumeric_groups:
  assumes "isNumeric text"
  shows "encodeNumeric text buffer = Returned (buffer @ numericGroups (map digit text))"
  using assms
proof (induction "text" arbitrary: buffer rule: list_induct3)
  case Nil
  then show ?case by (simp add: encodeNumeric_def)
next
  case (One a)
  then have a: "48 \<le> char_code a" "char_code a \<le> 57" by (simp_all add: isNumeric_Cons)
  have l: "numericLoop [a] 0 0 buffer = Returned (int (digit a), 1, buffer)"
    by (simp add: numericLoop_step[OF a] del: numericLoop.simps(2))
  have "appendBits (word_of_nat (digit a)) (int 4) buffer = Returned (buffer @ bitsOf 4 (digit a))"
    using digit_range(2)[OF a] by (intro appendBits_nat) simp_all
  then show ?case
    by (simp add: encodeNumeric_def l del: numericLoop.simps(2))
next
  case (Two a b)
  then have a: "48 \<le> char_code a" "char_code a \<le> 57" and b: "48 \<le> char_code b" "char_code b \<le> 57"
    by (simp_all add: isNumeric_Cons)
  define v where "v = 10 * digit a + digit b"
  have l: "numericLoop [a, b] 0 0 buffer = Returned (int v, 2, buffer)"
    by (simp add: numericLoop_step[OF a] numericLoop_step[OF b] v_def del: numericLoop.simps(2))
  have "appendBits (word_of_nat v) (int 7) buffer = Returned (buffer @ bitsOf 7 v)"
    using digit_range(2)[OF a] digit_range(2)[OF b] by (intro appendBits_nat) (simp_all add: v_def)
  then have "encodeNumeric [a, b] buffer = Returned (buffer @ bitsOf 7 v)"
    by (simp add: encodeNumeric_def l del: numericLoop.simps(2))
  then show ?case by (simp add: v_def)
next
  case (Three a b c ds)
  then have a: "48 \<le> char_code a" "char_code a \<le> 57" and b: "48 \<le> char_code b" "char_code b \<le> 57"
    and c: "48 \<le> char_code c" "char_code c \<le> 57" and ds: "isNumeric ds"
    by (simp_all add: isNumeric_Cons)
  define w where "w = 10 * digit a + digit b"
  define v where "v = 100 * digit a + 10 * digit b + digit c"
  have e: "int w * 10 + int (digit c) = int v"
    by (simp add: v_def w_def)
  have ap: "appendBits (word_of_int (int v)) 10 buffer = Returned (buffer @ bitsOf 10 v)"
    using digit_range(2)[OF a] digit_range(2)[OF b] digit_range(2)[OF c]
      appendBits_nat[of v 10 buffer] by (simp add: v_def)
  have s1: "numericLoop (a # b # c # ds) 0 0 buffer = numericLoop (b # c # ds) (int (digit a)) 1 buffer"
    by (subst numericLoop_step[OF a]) simp
  have s2: "numericLoop (b # c # ds) (int (digit a)) 1 buffer = numericLoop (c # ds) (int w) 2 buffer"
    by (subst numericLoop_step[OF b]) (simp add: w_def)
  have s3: "numericLoop (c # ds) (int w) 2 buffer =
            andThen (appendBits (word_of_int (int v)) 10 buffer) (numericLoop ds 0 0)"
    by (subst numericLoop_step[OF c]) (simp only: e, simp)
  have step: "numericLoop (a # b # c # ds) 0 0 buffer = numericLoop ds 0 0 (buffer @ bitsOf 10 v)"
    by (simp only: s1 s2 s3 ap andThen.simps)
  have "encodeNumeric (a # b # c # ds) buffer = encodeNumeric ds (buffer @ bitsOf 10 v)"
    by (simp only: encodeNumeric_def step)
  then show ?case
    using Three.IH[OF ds, of "buffer @ bitsOf 10 v"] by (simp add: v_def)
qed

theorem encodeNumeric_groups_witness:
  "isNumeric ''01234567'' \<and>
   encodeNumeric ''01234567'' [] = Returned (bitsOf 10 12 @ bitsOf 10 345 @ bitsOf 7 67) \<and>
   encodeNumeric ''7'' [] = Returned (bitsOf 4 7)"
proof -
  have h: "isNumeric ''01234567''" "isNumeric ''7''"
    by code_simp+
  show ?thesis
    using h encodeNumeric_groups[OF h(1), of "[]"] encodeNumeric_groups[OF h(2), of "[]"]
    by (simp add: digit_def char_code_def)
qed

section \<open>GF(256) arithmetic\<close>

lemma logExpLoop_tables:
  "case logExpLoop 1 1 (replicate 256 0) (replicate 256 0) of
     Returned (lg, ex) \<Rightarrow> tables_ok lg ex \<and> tables_sample lg ex
   | _ \<Rightarrow> False"
  by code_simp

lemma rsGenerateLogExp_tables:
  assumes "rsGenerateLogExp st = Returned st'" "rsLog' st = replicate 256 0" "rsExp' st = replicate 256 0"
  shows "\<exists>lg ex. tables_ok lg ex \<and> tables_sample lg ex \<and>
                 st' = st\<lparr>rsLog' := lg, rsExp' := ex[255 := 1]\<rparr>"
proof -
  from logExpLoop_tables obtain lg ex where
    l: "logExpLoop 1 1 (replicate 256 0) (replicate 256 0) = Returned (lg, ex)"
    and ok: "tables_ok lg ex" "tables_sample lg ex"
    by (auto split: outcome.splits)
  from ok(1) have "length ex = 256" by (simp add: tables_ok_def)
  with assms l have "st' = st\<lparr>rsLog' := lg, rsExp' := ex[255 := 1]\<rparr>"
    by (simp add: rsGenerateLogExp_def vec_set_def)
  with ok show ?thesis by blast
qed

lemma tables_ok_log:
  assumes "tables_ok lg ex" "y \<noteq> (0::uint8)"
  shows "uint (lg ! unat y) < 255" "ex ! nat (uint (lg ! unat y)) = y"
proof -
  have "unat y \<in> set [1..<256]"
    using assms(2) unsigned_less[of y, where ?'a = nat] unat_gt_0[of y] by auto
  with assms(1) have "uint (lg ! unat y) < 255 \<and> ex ! nat (uint (lg ! unat y)) = word_of_nat (unat y)"
    unfolding tables_ok_def list_all_iff by blast
  then show "uint (lg ! unat y) < 255" "ex ! nat (uint (lg ! unat y)) = y"
    by simp_all
qed

lemma rsGenerateLogExp_Returned:
  assumes "rsLog' st = replicate 256 0" "rsExp' st = replicate 256 0"
  shows "\<exists>st'. rsGenerateLogExp st = Returned st'"
proof -
  from logExpLoop_tables obtain lg ex where
    l: "logExpLoop 1 1 (replicate 256 0) (replicate 256 0) = Returned (lg, ex)"
    and ok: "tables_ok lg ex"
    by (auto split: outcome.splits)
  from ok have "length ex = 256" by (simp add: tables_ok_def)
  with assms l show ?thesis
    by (simp add: rsGenerateLogExp_def vec_set_def)
qed

text \<open>
  C4. With the tables generated by \<^verbatim>\<open>rsGenerateLogExp\<close> from the 256 zeros the
  constructor starts them with, and for all nonzero bytes \<open>x\<close> and \<open>y\<close>:
  \<^verbatim>\<open>reedSolomonDiv(1, y)\<close> and \<^verbatim>\<open>reedSolomonDiv(x, y)\<close> return, and
  \<^verbatim>\<open>reedSolomonMult(x, reedSolomonDiv(1, y))\<close> is \<^verbatim>\<open>reedSolomonDiv(x, y)\<close>.
  (\<^verbatim>\<open>reedSolomonDiv\<close> adds the logarithms, so \<^verbatim>\<open>reedSolomonDiv(1, y)\<close> is \<open>y\<close>.)
\<close>

theorem reedSolomon_mult_div:
  assumes "rsGenerateLogExp st = Returned st'"
    and "rsLog' st = replicate 256 0" "rsExp' st = replicate 256 0"
    and "x \<noteq> 0" "y \<noteq> 0"
  shows "reedSolomonDiv st' 1 y = Returned y \<and>
         (\<exists>q. reedSolomonDiv st' x y = Returned q) \<and>
         andThen (reedSolomonDiv st' 1 y) (reedSolomonMult st' x) = reedSolomonDiv st' x y"
proof -
  obtain lg ex where ok: "tables_ok lg ex" and st': "st' = st\<lparr>rsLog' := lg, rsExp' := ex[255 := 1]\<rparr>"
    using rsGenerateLogExp_tables[OF assms(1,2,3)] by blast
  from ok have len: "length lg = 256" "length ex = 256" and l1: "lg ! 1 = 0"
    by (simp_all add: tables_ok_def)
  have at_log: "vec_at (rsLog' st') (uint z) = Returned (lg ! unat z)" for z :: uint8
    using len uint_lt2p[of z] by (simp add: vec_at_def st')
  have ly: "uint (lg ! unat y) < 255" "ex ! nat (uint (lg ! unat y)) = y"
    using tables_ok_log[OF ok assms(5)] by simp_all
  have lx: "uint (lg ! unat x) < 255"
    using tables_ok_log[OF ok assms(4)] by simp
  have at_exp: "vec_at (rsExp' st') k = Returned (ex[255 := 1] ! nat k)" if "0 \<le> k" "k < 255" for k
    using that len by (simp add: vec_at_def st')
  have at_log1: "vec_at (rsLog' st') 1 = Returned 0"
    using at_log[of 1] l1 by simp
  have d1: "reedSolomonDiv st' 1 y = Returned y"
  proof -
    have "cmod (uint (0::uint8) + uint (lg ! unat y)) 255 = uint (lg ! unat y)"
      using ly(1) by (simp add: cmod_nonneg)
    moreover have "unat (lg ! unat y) < 255"
    proof -
      from ly(1) have "int (unat (lg ! unat y)) < 255" by (simp only: uint_nat)
      then show ?thesis by linarith
    qed
    ultimately show ?thesis
      using ly at_exp[of "uint (lg ! unat y)"]
      by (simp add: reedSolomonDiv_def at_log at_log1)
  qed
  have k: "0 \<le> cmod (uint (lg ! unat x) + uint (lg ! unat y)) 255"
          "cmod (uint (lg ! unat x) + uint (lg ! unat y)) 255 < 255"
    by (simp_all add: cmod_nonneg)
  have dxy: "reedSolomonDiv st' x y =
             Returned (ex[255 := 1] ! nat (cmod (uint (lg ! unat x) + uint (lg ! unat y)) 255))"
    using at_exp[OF k] by (simp add: reedSolomonDiv_def at_log)
  have mxy: "reedSolomonMult st' x y = reedSolomonDiv st' x y"
    using assms(4,5) by (simp add: reedSolomonMult_def reedSolomonDiv_def)
  show ?thesis
    using d1 dxy mxy by simp
qed

theorem reedSolomon_mult_div_witness:
  "\<exists>st'. rsGenerateLogExp (raw0\<lparr>rsLog' := replicate 256 0, rsExp' := replicate 256 0\<rparr>) = Returned st' \<and>
         reedSolomonDiv st' 1 2 = Returned 2 \<and>
         andThen (reedSolomonDiv st' 1 2) (reedSolomonMult st' 3) = reedSolomonDiv st' 3 2"
proof -
  obtain st' where
    g: "rsGenerateLogExp (raw0\<lparr>rsLog' := replicate 256 0, rsExp' := replicate 256 0\<rparr>) = Returned st'"
    using rsGenerateLogExp_Returned[of "raw0\<lparr>rsLog' := replicate 256 0, rsExp' := replicate 256 0\<rparr>"]
    by auto
  have "reedSolomonDiv st' 1 2 = Returned 2 \<and>
        (\<exists>q. reedSolomonDiv st' 3 2 = Returned q) \<and>
        andThen (reedSolomonDiv st' 1 2) (reedSolomonMult st' 3) = reedSolomonDiv st' 3 2"
    by (rule reedSolomon_mult_div[OF g]) simp_all
  with g show ?thesis by blast
qed

section \<open>Counted loops\<close>

lemma forLoop_Returned_inv:
  assumes "I s" and "\<And>i s. i \<in> set idx \<Longrightarrow> I s \<Longrightarrow> \<exists>s'. body i s = Returned s' \<and> I s'"
  shows "\<exists>s'. forLoop idx body s = Returned s' \<and> I s'"
  using assms
proof (induction idx arbitrary: s)
  case Nil
  then show ?case by simp
next
  case (Cons i idx)
  from Cons.prems obtain s1 where s1: "body i s = Returned s1" "I s1"
    by (meson list.set_intros(1))
  have "\<exists>s'. forLoop idx body s1 = Returned s' \<and> I s'"
    by (rule Cons.IH[OF s1(2)]) (simp add: Cons.prems(2))
  with s1 show ?case by simp
qed

lemma forLoop_inv:
  assumes "forLoop idx body s = Returned s'" "I s"
    and "\<And>i s s'. i \<in> set idx \<Longrightarrow> I s \<Longrightarrow> body i s = Returned s' \<Longrightarrow> I s'"
  shows "I s'"
  using assms
proof (induction idx arbitrary: s)
  case Nil
  then show ?case by simp
next
  case (Cons i idx)
  from Cons.prems(1) obtain s1 where s1: "body i s = Returned s1" "forLoop idx body s1 = Returned s'"
    by (auto simp: andThen_Returned_iff)
  have "I s1" using Cons.prems(3)[of i s s1] Cons.prems(2) s1(1) by simp
  show ?case
  proof (rule Cons.IH[OF s1(2) \<open>I s1\<close>])
    fix j t t'
    assume "j \<in> set idx" "I t" "body j t = Returned t'"
    then show "I t'" using Cons.prems(3)[of j t t'] by simp
  qed
qed

section \<open>Polynomial arithmetic\<close>

lemma uint8_index: "0 \<le> uint (x::uint8) \<and> uint x < 256"
proof -
  have "uint x < 2 ^ LENGTH(8)" by (rule uint_lt2p)
  then show ?thesis by simp
qed

lemma reedSolomonDiv_Returned:
  assumes "tables256 st"
  shows "\<exists>z. reedSolomonDiv st x y = Returned z"
proof -
  have "0 \<le> cmod (uint a + uint b) 255 \<and> cmod (uint a + uint b) 255 < 256" for a b :: uint8
    by (simp add: cmod_nonneg)
  then show ?thesis
    using assms uint8_index
    by (simp add: reedSolomonDiv_def vec_at_def tables256_def)
qed

lemma reedSolomonMult_Returned:
  assumes "tables256 st"
  shows "\<exists>z. reedSolomonMult st x y = Returned z"
  using reedSolomonDiv_Returned[OF assms, of x y]
  by (simp add: reedSolomonMult_def reedSolomonDiv_def)

lemma polyMultCoeff_Returned:
  assumes "tables256 st"
  shows "\<exists>c. polyMultCoeff st poly1 poly2 index = Returned c"
proof -
  have "\<exists>s'. forLoop [0..<Suc index]
       (\<lambda>p1index coeff.
          let p2index = index - p1index in
          if p1index < length poly1 \<and> p2index < length poly2
          then andThen (vec_at poly1 (int p1index)) (\<lambda>a.
               andThen (vec_at poly2 (int p2index)) (\<lambda>b.
               andThen (reedSolomonMult st a b) (\<lambda>m. Returned (coeff XOR m))))
          else Returned coeff) 0 = Returned s' \<and> True"
  proof (rule forLoop_Returned_inv)
    fix i :: nat and s :: uint8
    obtain m where "reedSolomonMult st (poly1 ! i) (poly2 ! (index - i)) = Returned m"
      using reedSolomonMult_Returned[OF assms] by blast
    then show "\<exists>s'. (let p2index = index - i in
          if i < length poly1 \<and> p2index < length poly2
          then andThen (vec_at poly1 (int i)) (\<lambda>a.
               andThen (vec_at poly2 (int p2index)) (\<lambda>b.
               andThen (reedSolomonMult st a b) (\<lambda>m. Returned (s XOR m))))
          else Returned s) = Returned s' \<and> True"
      by (simp add: vec_at_def Let_def)
  qed simp
  then show ?thesis by (simp add: polyMultCoeff_def)
qed

lemma reedSolomonPolyMult_length:
  assumes "tables256 st" "poly1 \<noteq> [] \<or> poly2 \<noteq> []"
  shows "\<exists>r. reedSolomonPolyMult st poly1 poly2 = Returned r \<and>
             length r = length poly1 + length poly2 - 1"
proof -
  let ?n = "length poly1 + length poly2 - 1"
  have "\<exists>s'. forLoop [0..<?n]
             (\<lambda>index coeffs.
                andThen (polyMultCoeff st poly1 poly2 index) (\<lambda>coeff.
                  vec_set coeffs (int index) coeff))
             (replicate ?n 0) = Returned s' \<and> length s' = ?n"
  proof (rule forLoop_Returned_inv)
    fix i and s :: "uint8 list"
    assume i: "i \<in> set [0..<?n]" and s: "length s = ?n"
    obtain c where "polyMultCoeff st poly1 poly2 i = Returned c"
      using polyMultCoeff_Returned[OF assms(1)] by blast
    with i s show "\<exists>s'. andThen (polyMultCoeff st poly1 poly2 i) (\<lambda>coeff. vec_set s (int i) coeff)
                     = Returned s' \<and> length s' = ?n"
      by (simp add: vec_set_def)
  qed simp
  with assms(2) show ?thesis by (auto simp: reedSolomonPolyMult_def)
qed

lemma polyDivLoop_length:
  assumes "tables256 st" "divisor \<noteq> []"
    and "count \<le> n" "length remainder + count = L" "n + length divisor = L + 1"
  shows "\<exists>r. polyDivLoop st divisor n count remainder = Returned r \<and> length r = L - n"
  using assms(3,4)
proof (induction "n - count" arbitrary: count remainder)
  case 0
  then have "count = n" by simp
  with 0 show ?case by (subst polyDivLoop.simps) auto
next
  case (Suc k)
  then have lt: "count < n" by simp
  with Suc.prems assms(5) have len: "length divisor \<le> length remainder" by simp
  with assms(2) obtain r0 rest where rem: "remainder = r0 # rest"
    by (cases remainder) auto
  have k: "k = n - (count + 1)" using Suc.hyps(2) by simp
  show ?case
  proof (cases "r0 = 0")
    case True
    have "\<exists>r. polyDivLoop st divisor n (count + 1) rest = Returned r \<and> length r = L - n"
      using Suc.hyps(1)[OF k, of rest] lt Suc.prems rem by simp
    with True lt rem show ?thesis
      by (subst polyDivLoop.simps) simp
  next
    case False
    obtain d0 where d0: "vec_at divisor 0 = Returned d0"
      using assms(2) by (simp add: vec_at_def)
    obtain f where f: "reedSolomonDiv st r0 d0 = Returned f"
      using reedSolomonDiv_Returned[OF assms(1)] by blast
    obtain product where p: "reedSolomonPolyMult st divisor [f] = Returned product"
      "length product = length divisor"
      using reedSolomonPolyMult_length[OF assms(1), of divisor "[f]"] by auto
    define remainder' where "remainder' = map (\<lambda>(a, b). a XOR b)
        (zip remainder (product @ replicate (length remainder - length product) 0))"
    have l': "length (tl remainder') + (count + 1) = L"
      using p(2) len Suc.prems rem by (simp add: remainder'_def)
    have "\<exists>r. polyDivLoop st divisor n (count + 1) (tl remainder') = Returned r \<and> length r = L - n"
      using Suc.hyps(1)[OF k, of "tl remainder'"] lt l' by simp
    with False lt rem d0 f p len show ?thesis
      by (subst polyDivLoop.simps) (simp add: Let_def remainder'_def)
  qed
qed

lemma size_t_diff:
  assumes "b \<le> a" "a < 2 ^ 63"
  shows "unat ((word_of_nat a :: 64 word) - word_of_nat b + 1) = a - b + 1"
proof -
  have "(word_of_nat a :: 64 word) - word_of_nat b + 1 = word_of_nat (a - b + 1)"
    using assms(1) by simp
  moreover have "a - b + 1 < 2 ^ 64" using assms(2) by simp
  ultimately show ?thesis
    by (simp only: unat_of_nat) simp
qed

lemma reedSolomonPolyDiv_length:
  assumes "tables256 st" "divisor \<noteq> []" "length divisor \<le> length dividend"
    and "length dividend < 2 ^ 63"
  shows "\<exists>r. reedSolomonPolyDiv st dividend divisor = Returned r \<and>
             length r = length divisor - 1"
proof -
  let ?n = "length dividend - length divisor + 1"
  have n: "unat ((word_of_nat (length dividend) :: 64 word) - word_of_nat (length divisor) + 1) = ?n"
    by (rule size_t_diff[OF assms(3,4)])
  have "\<exists>r. polyDivLoop st divisor ?n 0 dividend = Returned r \<and> length r = length dividend - ?n"
    using assms(2,3) by (intro polyDivLoop_length[OF assms(1,2)]) (simp_all add: Suc_le_eq)
  moreover have "length dividend - ?n = length divisor - 1"
    using assms(2,3) by (cases divisor) simp_all
  ultimately show ?thesis
    by (simp only: reedSolomonPolyDiv_def n)
qed

lemma generatePolyLoop_length:
  assumes "tables256 st" "degree \<le> 256" "i \<le> degree" "length lastPoly = i + 1"
  shows "\<exists>g. generatePolyLoop st degree i lastPoly = Returned g \<and> length g = degree + 1"
  using assms(3,4)
proof (induction "degree - i" arbitrary: i lastPoly)
  case 0
  then show ?case by (subst generatePolyLoop.simps) simp
next
  case (Suc k)
  then have lt: "i < degree" by simp
  with assms(1,2) obtain a where a: "vec_at (rsExp' st) (int i) = Returned a"
    by (simp add: vec_at_def tables256_def)
  obtain p where p: "reedSolomonPolyMult st lastPoly [1, a] = Returned p" "length p = length lastPoly + 1"
    using reedSolomonPolyMult_length[OF assms(1), of lastPoly "[1, a]"] by auto
  have "\<exists>g. generatePolyLoop st degree (i + 1) p = Returned g \<and> length g = degree + 1"
    using Suc.hyps(2) lt p(2) Suc.prems by (intro Suc.hyps(1)) simp_all
  with lt a p show ?case
    by (subst generatePolyLoop.simps) simp
qed

lemma rsGeneratePoly_length:
  assumes "tables256 st" "0 \<le> degree" "degree \<le> 256"
  shows "\<exists>g. rsGeneratePoly st degree = Returned g \<and> length g = nat degree + 1"
proof -
  have "unat (word_of_int degree :: 64 word) = nat degree"
  proof -
    have "(word_of_int degree :: 64 word) = word_of_nat (nat degree)"
      using assms(2) by simp
    moreover have "nat degree < 2 ^ 64" using assms(3) by simp
    ultimately show ?thesis by (simp only: unat_of_nat) simp
  qed
  moreover have "\<exists>g. generatePolyLoop st (nat degree) 0 [1] = Returned g \<and> length g = nat degree + 1"
    using assms(3) by (intro generatePolyLoop_length[OF assms(1)]) simp_all
  ultimately show ?thesis by (simp add: rsGeneratePoly_def)
qed

lemma generateEDC_length:
  assumes "tables256 st" "data \<noteq> []" "int (length data) \<le> codewords"
    and "codewords - int (length data) \<le> 256" "codewords < 2 ^ 32"
  shows "\<exists>edc. generateEDC st data codewords = Returned edc \<and>
               int (length edc) = codewords - int (length data)"
proof -
  let ?degree = "codewords - int (length data)"
  let ?m = "data @ replicate (nat codewords - length data) 0"
  obtain g where g: "rsGeneratePoly st ?degree = Returned g" "length g = nat ?degree + 1"
    using rsGeneratePoly_length[OF assms(1), of ?degree] assms(3,4) by auto
  have lm: "length ?m = nat codewords" using assms(3) by simp
  have "length data > 0" using assms(2) by simp
  then have le: "length g \<le> length ?m" using g(2) assms(3) lm by linarith
  have "length ?m < 2 ^ 63" using lm assms(5) assms(3) by (simp add: nat_less_iff)
  then obtain r where r: "reedSolomonPolyDiv st ?m g = Returned r" "length r = length g - 1"
    using reedSolomonPolyDiv_length[OF assms(1) _ le] g(2) by fastforce
  show ?thesis
    using assms(3) g r by (simp add: generateEDC_def Let_def)
qed



section \<open>Codeword placement and masking leave reserved cells alone\<close>

lemma vec_at_Returned_iff:
  "vec_at xs i = Returned v \<longleftrightarrow> 0 \<le> i \<and> i < int (length xs) \<and> v = xs ! nat i"
  by (auto simp: vec_at_def)

lemma vec_set_Returned_iff:
  "vec_set xs i v = Returned ys \<longleftrightarrow> 0 \<le> i \<and> i < int (length xs) \<and> ys = xs[nat i := v]"
  by (auto simp: vec_set_def)

lemma grid_at_Returned_iff:
  "grid_at g x y = Returned v \<longleftrightarrow>
     0 \<le> y \<and> y < int (length g) \<and> 0 \<le> x \<and> x < int (length (g ! nat y)) \<and> v = g ! nat y ! nat x"
  by (auto simp: grid_at_def andThen_Returned_iff vec_at_Returned_iff)

lemma grid_set_Returned_iff:
  "grid_set g x y v = Returned g' \<longleftrightarrow>
     0 \<le> y \<and> y < int (length g) \<and> 0 \<le> x \<and> x < int (length (g ! nat y)) \<and>
     g' = g[nat y := (g ! nat y)[nat x := v]]"
  by (auto simp: grid_set_def andThen_Returned_iff vec_at_Returned_iff vec_set_Returned_iff)

lemma grid_update_nth:
  assumes "y < length g"
  shows "g[y := (g ! y)[x := v]] ! j ! i =
         (if j = y \<and> i = x \<and> x < length (g ! y) then v else g ! j ! i)"
  using assms by (cases "j = y") (auto simp: nth_list_update list_update_beyond)

lemma keeps_reserved_refl: "keeps_reserved st st"
proof -
  have "st = st\<lparr>blocks' := blocks' st\<rparr>" by simp
  then have "\<exists>b. st = st\<lparr>blocks' := b\<rparr>" by blast
  then show ?thesis by (simp add: keeps_reserved_def)
qed

lemma keeps_reserved_same:
  assumes "keeps_reserved st s"
  shows "funcBlock' s = funcBlock' st" "size' s = size' st" "data' s = data' st"
    "version' s = version' st" "mask' s = mask' st" "correctionLevel' s = correctionLevel' st"
    "kEncoding' s = kEncoding' st" "plain_text' s = plain_text' st"
  using assms by (auto simp: keeps_reserved_def)

lemma keeps_reserved_write:
  assumes "keeps_reserved st s" "grid_at (funcBlock' s) x y = Returned f"
    and "grid_set (blocks' s) x y v = Returned b"
    and "f \<Longrightarrow> v = blocks' s ! nat y ! nat x"
  shows "keeps_reserved st (s\<lparr>blocks' := b\<rparr>)"
proof -
  from assms(3) have y: "nat y < length (blocks' s)"
    and b: "b = (blocks' s)[nat y := (blocks' s ! nat y)[nat x := v]]"
    by (auto simp: grid_set_Returned_iff)
  from assms(2) have f: "f = funcBlock' s ! nat y ! nat x"
    by (simp add: grid_at_Returned_iff)
  have "module (s\<lparr>blocks' := b\<rparr>) X Y = module st X Y" if r: "reserved st X Y" for X Y
  proof -
    from r assms(1) have fXY: "funcBlock' s ! Y ! X"
      by (simp add: reserved_def keeps_reserved_same)
    have "b ! Y ! X = blocks' s ! Y ! X"
    proof (cases "Y = nat y \<and> X = nat x")
      case True
      with fXY f have "v = blocks' s ! nat y ! nat x" using assms(4) by simp
      then have "b = blocks' s" unfolding b by simp
      then show ?thesis by simp
    next
      case False
      then show ?thesis
        unfolding b using grid_update_nth[OF y, of "nat x" v Y X] by auto
    qed
    with r assms(1) show ?thesis by (simp add: module_def keeps_reserved_def)
  qed
  moreover from assms(1) obtain b0 where "s = st\<lparr>blocks' := b0\<rparr>"
    unfolding keeps_reserved_def by blast
  then have "s\<lparr>blocks' := b\<rparr> = st\<lparr>blocks' := b\<rparr>" by simp
  then have "\<exists>b'. s\<lparr>blocks' := b\<rparr> = st\<lparr>blocks' := b'\<rparr>" by blast
  ultimately show ?thesis by (simp add: keeps_reserved_def)
qed

lemma placeBit_cases:
  assumes "placeBit right vert j (i, s) = Returned (i', s')"
    and "x = right - j" "y = (if (right + 1) AND 2 = 0 then size' s - 1 - vert else vert)"
  obtains (unchanged) "s' = s" "i' = i"
  | (written) f byte b where
      "grid_at (funcBlock' s) x y = Returned f" "\<not> f" "i < length (data' s) * 8"
      "vec_at (data' s) (int (drop_bit 3 i)) = Returned byte"
      "grid_set (blocks' s) x y (bit (byte::uint8) (7 - (i AND 7))) = Returned b"
      "s' = s\<lparr>blocks' := b\<rparr>" "i' = i + 1"
proof -
  have eq: "placeBit right vert j (i, s) =
        andThen (grid_at (funcBlock' s) x y) (\<lambda>f.
          if \<not> f \<and> i < length (data' s) * 8
          then andThen (vec_at (data' s) (int (drop_bit 3 i))) (\<lambda>byte.
               andThen (grid_set (blocks' s) x y (bit byte (7 - (i AND 7)))) (\<lambda>b.
                 Returned (i + 1, s\<lparr>blocks' := b\<rparr>)))
          else Returned (i, s))"
    unfolding assms(2,3) by (simp add: placeBit_def Let_def)
  from assms(1) obtain f where f: "grid_at (funcBlock' s) x y = Returned f"
    and rest: "(if \<not> f \<and> i < length (data' s) * 8
          then andThen (vec_at (data' s) (int (drop_bit 3 i))) (\<lambda>byte.
               andThen (grid_set (blocks' s) x y (bit byte (7 - (i AND 7)))) (\<lambda>b.
                 Returned (i + 1, s\<lparr>blocks' := b\<rparr>)))
          else Returned (i, s)) = Returned (i', s')"
    unfolding eq andThen_Returned_iff by blast
  show thesis
  proof (cases "\<not> f \<and> i < length (data' s) * 8")
    case False
    with rest have "s' = s" "i' = i" by simp_all
    then show thesis by (rule unchanged)
  next
    case True
    with rest have "andThen (vec_at (data' s) (int (drop_bit 3 i))) (\<lambda>byte.
               andThen (grid_set (blocks' s) x y (bit byte (7 - (i AND 7)))) (\<lambda>b.
                 Returned (i + 1, s\<lparr>blocks' := b\<rparr>))) = Returned (i', s')"
      by simp
    then obtain byte b where
      "vec_at (data' s) (int (drop_bit 3 i)) = Returned byte"
      "grid_set (blocks' s) x y (bit (byte::uint8) (7 - (i AND 7))) = Returned b"
      "s' = s\<lparr>blocks' := b\<rparr>" "i' = i + 1"
      unfolding andThen_Returned_iff by auto
    with f True show thesis by (intro written[of f byte b]) simp_all
  qed
qed

lemma placeBit_keeps:
  assumes "placeBit right vert j p = Returned p'" "keeps_reserved st (snd p)"
  shows "keeps_reserved st (snd p')"
proof -
  obtain i s i' s' where p: "p = (i, s)" "p' = (i', s')"
    by (cases p, cases p') auto
  from assms(1)[unfolded p] show ?thesis
  proof (rule placeBit_cases[OF _ refl refl])
    assume "s' = s" "i' = i"
    with assms(2) p show ?thesis by simp
  next
    fix f and byte :: uint8 and b
    let ?x = "right - j"
    let ?y = "if (right + 1) AND 2 = 0 then size' s - 1 - vert else vert"
    assume w: "grid_at (funcBlock' s) ?x ?y = Returned f" "\<not> f"
      "grid_set (blocks' s) ?x ?y (bit byte (7 - (i AND 7))) = Returned b"
      "s' = s\<lparr>blocks' := b\<rparr>"
    from assms(2) p have "keeps_reserved st s" by simp
    from keeps_reserved_write[OF this w(1,3)] w(2,4) p show ?thesis by simp
  qed
qed

lemma codewordColumns_keeps:
  assumes "codewordColumns right ist = Returned st'" "keeps_reserved st (snd ist)"
  shows "keeps_reserved st st'"
  using assms
proof (induction right ist rule: codewordColumns.induct)
  case (1 right ist)
  show ?case
  proof (cases "right \<ge> 1")
    case False
    with "1.prems" show ?thesis by (subst (asm) codewordColumns.simps) simp
  next
    case True
    define right' where "right' = (if right = 6 then 5 else right)"
    have eq: "codewordColumns right ist =
          andThen (forLoop [0..size' (snd ist) - 1] (\<lambda>vert. forLoop [0, 1] (placeBit right' vert)) ist)
            (codewordColumns (right' - 2))"
      using True by (subst codewordColumns.simps) (simp add: right'_def Let_def)
    have "\<exists>ist1. forLoop [0..size' (snd ist) - 1] (\<lambda>vert. forLoop [0, 1] (placeBit right' vert)) ist
                   = Returned ist1 \<and> codewordColumns (right' - 2) ist1 = Returned st'"
      using "1.prems"(1) unfolding eq andThen_Returned_iff .
    then obtain ist1 where
      l: "forLoop [0..size' (snd ist) - 1] (\<lambda>vert. forLoop [0, 1] (placeBit right' vert)) ist = Returned ist1"
      and r: "codewordColumns (right' - 2) ist1 = Returned st'"
      by blast
    have inner: "keeps_reserved st (snd q')"
      if "keeps_reserved st (snd q)" "forLoop [0, 1] (placeBit right' vert) q = Returned q'"
      for vert q q'
      by (rule forLoop_inv[OF that(2), where I = "\<lambda>p. keeps_reserved st (snd p)"])
         (use that(1) placeBit_keeps in blast)+
    have "keeps_reserved st (snd ist1)"
      by (rule forLoop_inv[OF l, where I = "\<lambda>p. keeps_reserved st (snd p)"])
         (use "1.prems"(2) inner in blast)+
    then show ?thesis
      using "1.IH"[OF True right'_def l r] by simp
  qed
qed


lemma drawCodewords_keeps:
  assumes "drawCodewords st = Returned st'"
  shows "keeps_reserved st st'"
  using codewordColumns_keeps[of "size' st - 1" "(0, st)" st' st] assms
  by (simp add: drawCodewords_def keeps_reserved_refl)

lemma mask_cell_keeps:
  assumes "keeps_reserved st s"
    and "andThen (grid_at (blocks' s) x y) (\<lambda>b.
         andThen (grid_at (funcBlock' s) x y) (\<lambda>f.
         andThen (grid_set (blocks' s) x y (b \<noteq> (sw \<and> \<not> f))) (\<lambda>b'.
           Returned (s\<lparr>blocks' := b'\<rparr>)))) = Returned s'"
  shows "keeps_reserved st s'"
proof -
  from assms(2) obtain b f b' where
    b: "grid_at (blocks' s) x y = Returned b" and f: "grid_at (funcBlock' s) x y = Returned f"
    and w: "grid_set (blocks' s) x y (b \<noteq> (sw \<and> \<not> f)) = Returned b'"
    and s': "s' = s\<lparr>blocks' := b'\<rparr>"
    unfolding andThen_Returned_iff by auto
  from b have "b = blocks' s ! nat y ! nat x" by (simp add: grid_at_Returned_iff)
  then have "f \<Longrightarrow> (b \<noteq> (sw \<and> \<not> f)) = blocks' s ! nat y ! nat x" by simp
  from keeps_reserved_write[OF assms(1) f w this] s' show ?thesis by simp
qed

lemma mask_fn_keeps:
  assumes "mask_fn m st = Returned st'"
  shows "0 \<le> m \<and> m \<le> 7 \<and> keeps_reserved st st'"
proof -
  from assms have m: "0 \<le> m" "m \<le> 7"
    by (auto simp: mask_fn_def split: if_splits)
  define sz where "sz = unat (word_of_int (size' st) :: 64 word)"
  from assms m have l: "forLoop [0..<sz] (\<lambda>y.
          forLoop [0..<sz] (\<lambda>x st'.
            andThen (grid_at (blocks' st') (int x) (int y)) (\<lambda>b.
            andThen (grid_at (funcBlock' st') (int x) (int y)) (\<lambda>f.
            andThen (grid_set (blocks' st') (int x) (int y) (b \<noteq> (maskSwap m x y \<and> \<not> f))) (\<lambda>b'.
              Returned (st'\<lparr>blocks' := b'\<rparr>)))))) st = Returned st'"
    by (simp add: mask_fn_def sz_def Let_def)
  have row: "keeps_reserved st s'"
    if "keeps_reserved st s" "forLoop [0..<sz] (\<lambda>x st'.
            andThen (grid_at (blocks' st') (int x) (int y)) (\<lambda>b.
            andThen (grid_at (funcBlock' st') (int x) (int y)) (\<lambda>f.
            andThen (grid_set (blocks' st') (int x) (int y) (b \<noteq> (maskSwap m x y \<and> \<not> f))) (\<lambda>b'.
              Returned (st'\<lparr>blocks' := b'\<rparr>))))) s = Returned s'" for y s s'
    by (rule forLoop_inv[OF that(2), where I = "keeps_reserved st"])
       (use that(1) mask_cell_keeps in blast)+
  have "keeps_reserved st st'"
    by (rule forLoop_inv[OF l, where I = "keeps_reserved st"])
       (use keeps_reserved_refl row in blast)+
  with m show ?thesis by simp
qed

text \<open>
  C8. When \<^verbatim>\<open>drawCodewords\<close> returns, the reservation mask is unchanged and every
  reserved cell holds the module it held before: the placement writes only cells the mask
  does not mark. When \<^verbatim>\<open>mask\<close> returns, its index is one of 0 to 7, the reservation mask
  is unchanged and every reserved cell holds the module it held before the mask step.
\<close>

theorem codewords_and_mask_keep_reserved:
  "(drawCodewords st = Returned st' \<longrightarrow>
      funcBlock' st' = funcBlock' st \<and>
      (\<forall>x y. reserved st x y \<longrightarrow> module st' x y = module st x y)) \<and>
   (mask_fn m st = Returned st'' \<longrightarrow>
      0 \<le> m \<and> m \<le> 7 \<and> funcBlock' st'' = funcBlock' st \<and>
      (\<forall>x y. reserved st x y \<longrightarrow> module st'' x y = module st x y))"
  using drawCodewords_keeps[of st st'] mask_fn_keeps[of m st st'']
  by (auto simp: keeps_reserved_def)

lemma grid2_drawCodewords:
  "drawCodewords grid2 = Returned (grid2\<lparr>blocks' := [[False, True], [True, True]]\<rparr>)"
  by code_simp

lemma grid2_mask:
  "mask_fn 0 grid2 = Returned (grid2\<lparr>blocks' := [[False, False], [False, True]]\<rparr>)"
  by code_simp

theorem codewords_and_mask_keep_reserved_witness:
  "drawCodewords grid2 = Returned (grid2\<lparr>blocks' := [[False, True], [True, True]]\<rparr>) \<and>
   mask_fn 0 grid2 = Returned (grid2\<lparr>blocks' := [[False, False], [False, True]]\<rparr>) \<and>
   reserved grid2 0 0 \<and>
   module (grid2\<lparr>blocks' := [[False, True], [True, True]]\<rparr>) 0 0 = module grid2 0 0 \<and>
   module (grid2\<lparr>blocks' := [[False, False], [False, True]]\<rparr>) 0 0 = module grid2 0 0"
proof -
  have r: "reserved grid2 0 0" by (simp add: reserved_def grid2_def)
  show ?thesis
    using r grid2_drawCodewords grid2_mask
      codewords_and_mask_keep_reserved[of grid2 "grid2\<lparr>blocks' := [[False, True], [True, True]]\<rparr>"
         0 "grid2\<lparr>blocks' := [[False, False], [False, True]]\<rparr>"]
    by blast
qed

section \<open>Function patterns and the timing lines\<close>

lemma draws_refl: "draws s s"
proof -
  have "s = s\<lparr>blocks' := blocks' s, funcBlock' := funcBlock' s\<rparr>" by simp
  then have "\<exists>b f. s = s\<lparr>blocks' := b, funcBlock' := f\<rparr>" by blast
  then show ?thesis by (simp add: draws_def)
qed

lemma draws_trans:
  assumes "draws s t" "draws t u"
  shows "draws s u"
proof -
  from assms obtain b f b' f' where "t = s\<lparr>blocks' := b, funcBlock' := f\<rparr>"
    "u = t\<lparr>blocks' := b', funcBlock' := f'\<rparr>"
    unfolding draws_def by blast
  then have "u = s\<lparr>blocks' := b', funcBlock' := f'\<rparr>" by simp
  then have "\<exists>b f. u = s\<lparr>blocks' := b, funcBlock' := f\<rparr>" by blast
  with assms show ?thesis unfolding draws_def by blast
qed

lemma draws_size: "draws s s' \<Longrightarrow> size' s' = size' s"
  and draws_version: "draws s s' \<Longrightarrow> version' s' = version' s"
  and draws_mask: "draws s s' \<Longrightarrow> mask' s' = mask' s"
  and draws_level: "draws s s' \<Longrightarrow> correctionLevel' s' = correctionLevel' s"
  and draws_encoding: "draws s s' \<Longrightarrow> kEncoding' s' = kEncoding' s"
  by (auto simp: draws_def)

lemma grid_set_shape:
  assumes "grid_set g x y v = Returned g'"
  shows "length g' = length g" "length (g' ! Y) = length (g ! Y)"
  using assms by (auto simp: grid_set_Returned_iff nth_list_update)

lemma grid_set_nth:
  assumes "grid_set g x y v = Returned g'"
  shows "g' ! Y ! X = (if Y = nat y \<and> X = nat x then v else g ! Y ! X)"
proof -
  from assms have y: "nat y < length g" and x: "nat x < length (g ! nat y)"
    and g': "g' = g[nat y := (g ! nat y)[nat x := v]]"
    by (auto simp: grid_set_Returned_iff)
  show ?thesis unfolding g' using grid_update_nth[OF y, of "nat x" v Y X] x by simp
qed

lemma setFuncBlocks_draws:
  assumes "setFuncBlocks x y v s = Returned s'" "timing_write_ok (size' s) x y v"
  shows "draws s s'" "reserved s' (nat x) (nat y)"
proof -
  from assms(1) obtain b f where b: "grid_set (blocks' s) x y v = Returned b"
    and f: "grid_set (funcBlock' s) x y True = Returned f"
    and s': "s' = s\<lparr>blocks' := b, funcBlock' := f\<rparr>"
    unfolding setFuncBlocks_def andThen_Returned_iff by auto
  from f have xy: "0 \<le> x" "0 \<le> y" "nat y < length (funcBlock' s)"
    "nat x < length (funcBlock' s ! nat y)"
    by (auto simp: grid_set_Returned_iff)
  have res: "reserved s' X Y \<longleftrightarrow> reserved s X Y \<or> (X = nat x \<and> Y = nat y)" for X Y
    using xy by (auto simp: reserved_def s' grid_set_shape[OF f] grid_set_nth[OF f])
  have md: "module s' X Y = (if Y = nat y \<and> X = nat x then v else module s X Y)" for X Y
    by (simp add: module_def s' grid_set_nth[OF b])
  show "reserved s' (nat x) (nat y)" by (simp add: res)
  have "timing_val s'" if tv: "timing_val s"
    unfolding timing_val_def
  proof (intro allI impI)
    fix p :: nat
    assume p: "8 \<le> p \<and> int p + 8 < size' s'"
    then have p': "8 \<le> p \<and> int p + 8 < size' s" by (simp add: s')
    have a: "module s' p 6 = even p" if "reserved s' p 6"
    proof (cases "p = nat x \<and> 6 = nat y")
      case True
      with xy have "y = 6" "x = int p" by auto
      with assms(2) p' have "v = even p" by (simp add: timing_write_ok_def)
      with True show ?thesis by (simp add: md)
    next
      case False
      with that have "reserved s p 6" by (auto simp: res)
      with tv p' have "module s p 6 = even p" by (simp add: timing_val_def)
      with False show ?thesis by (auto simp: md)
    qed
    have c: "module s' 6 p = even p" if "reserved s' 6 p"
    proof (cases "6 = nat x \<and> p = nat y")
      case True
      with xy have "x = 6" "y = int p" by auto
      with assms(2) p' have "v = even p" by (simp add: timing_write_ok_def)
      with True show ?thesis by (simp add: md)
    next
      case False
      with that have "reserved s 6 p" by (auto simp: res)
      with tv p' have "module s 6 p = even p" by (simp add: timing_val_def)
      with False show ?thesis by (auto simp: md)
    qed
    from a c show "(reserved s' p 6 \<longrightarrow> module s' p 6 = even p) \<and>
                   (reserved s' 6 p \<longrightarrow> module s' 6 p = even p)" by blast
  qed
  moreover have "\<exists>b f. s' = s\<lparr>blocks' := b, funcBlock' := f\<rparr>" using s' by blast
  ultimately show "draws s s'" by (simp add: draws_def res)
qed

text \<open>A loop of drawing steps draws.\<close>

lemma forLoop_draws:
  assumes "forLoop idx body s = Returned s'"
    and "\<And>i t t'. i \<in> set idx \<Longrightarrow> draws s t \<Longrightarrow> body i t = Returned t' \<Longrightarrow> draws t t'"
  shows "draws s s'"
  by (rule forLoop_inv[OF assms(1), where I = "draws s"])
     (use draws_refl draws_trans assms(2) in blast)+

lemma forLoop_establish:
  assumes "forLoop idx body s = Returned s'" "p \<in> set idx"
    and "\<And>s s'. body p s = Returned s' \<Longrightarrow> Q s'"
    and "\<And>i s s'. i \<in> set idx \<Longrightarrow> Q s \<Longrightarrow> body i s = Returned s' \<Longrightarrow> Q s'"
  shows "Q s'"
  using assms
proof (induction idx arbitrary: s)
  case Nil
  then show ?case by simp
next
  case (Cons i idx)
  from Cons.prems(1) obtain s1 where s1: "body i s = Returned s1" "forLoop idx body s1 = Returned s'"
    by (auto simp: andThen_Returned_iff)
  show ?case
  proof (cases "p = i")
    case True
    then have "Q s1" using Cons.prems(3) s1(1) by simp
    show ?thesis
      by (rule forLoop_inv[OF s1(2), where I = Q]) (use \<open>Q s1\<close> Cons.prems(4) in auto)
  next
    case False
    with Cons.prems(2) have pin: "p \<in> set idx" by simp
    show ?thesis
    proof (rule Cons.IH[OF s1(2) pin])
      fix t t' assume "body p t = Returned t'"
      then show "Q t'" by (rule Cons.prems(3))
    next
      fix j t t' assume "j \<in> set idx" "Q t" "body j t = Returned t'"
      then show "Q t'" using Cons.prems(4)[of j t t'] by simp
    qed
  qed
qed

lemma setFuncBlocks_reserved:
  assumes "setFuncBlocks x y v s = Returned s'"
  shows "reserved s' (nat x) (nat y)" "reserved s X Y \<Longrightarrow> reserved s' X Y"
proof -
  from assms obtain b f where f: "grid_set (funcBlock' s) x y True = Returned f"
    and s': "s' = s\<lparr>blocks' := b, funcBlock' := f\<rparr>"
    unfolding setFuncBlocks_def andThen_Returned_iff by auto
  from f have xy: "nat y < length (funcBlock' s)" "nat x < length (funcBlock' s ! nat y)"
    by (auto simp: grid_set_Returned_iff)
  show "reserved s' (nat x) (nat y)"
    using xy by (simp add: reserved_def s' grid_set_shape[OF f] grid_set_nth[OF f])
  show "reserved s X Y \<Longrightarrow> reserved s' X Y"
    by (simp add: reserved_def s' grid_set_shape[OF f] grid_set_nth[OF f])
qed

lemma timing_write_okI:
  assumes "y \<noteq> 6 \<or> x < 8 \<or> sz \<le> x + 8" "x \<noteq> 6 \<or> y < 8 \<or> sz \<le> y + 8"
  shows "timing_write_ok sz x y v"
  using assms by (auto simp: timing_write_ok_def)

lemma grid_set_square:
  assumes "square n g" "0 \<le> x" "x < n" "0 \<le> y" "y < n"
  shows "\<exists>g'. grid_set g x y v = Returned g' \<and> square n g'"
proof -
  from assms have y: "nat y < length g" by (simp add: square_def)
  with assms(1) have row: "length (g ! nat y) = nat n" by (simp add: square_def)
  with assms have x: "nat x < length (g ! nat y)" by simp
  let ?g' = "g[nat y := (g ! nat y)[nat x := v]]"
  have "grid_set g x y v = Returned ?g'"
    using assms(2,4) x y by (auto simp: grid_set_Returned_iff nat_less_iff)
  moreover have "square n ?g'"
    unfolding square_def
  proof (intro conjI ballI)
    show "length ?g' = nat n" using assms(1) by (simp add: square_def)
    fix r assume "r \<in> set ?g'"
    then have "r = (g ! nat y)[nat x := v] \<or> r \<in> set g"
      using set_update_subset_insert[of g "nat y" "(g ! nat y)[nat x := v]"] by auto
    then show "length r = nat n" using row assms(1) by (auto simp: square_def)
  qed
  ultimately show ?thesis by blast
qed

lemma setFuncBlocks_good:
  assumes "well_formed s" "0 \<le> x" "x < size' s" "0 \<le> y" "y < size' s"
    and "timing_write_ok (size' s) x y v"
  shows "\<exists>s'. setFuncBlocks x y v s = Returned s' \<and> well_formed s' \<and> draws s s'"
proof -
  from assms(1) have sq: "square (size' s) (blocks' s)" "square (size' s) (funcBlock' s)"
    unfolding well_formed_def by blast+
  obtain b where b: "grid_set (blocks' s) x y v = Returned b" "square (size' s) b"
    using grid_set_square[OF sq(1) assms(2-5)] by blast
  obtain f where f: "grid_set (funcBlock' s) x y True = Returned f" "square (size' s) f"
    using grid_set_square[OF sq(2) assms(2-5)] by blast
  let ?s' = "s\<lparr>blocks' := b, funcBlock' := f\<rparr>"
  have r: "setFuncBlocks x y v s = Returned ?s'"
    by (simp add: setFuncBlocks_def b f)
  moreover have "well_formed ?s'" using assms(1) b(2) f(2) by (simp add: well_formed_def)
  moreover have "draws s ?s'" by (rule setFuncBlocks_draws(1)[OF r assms(6)])
  ultimately show ?thesis by blast
qed

lemma goodI:
  assumes "\<And>s. well_formed s \<Longrightarrow> P s \<Longrightarrow> \<exists>s'. F s = Returned s' \<and> well_formed s' \<and> draws s s'"
  shows "good P F"
  using assms by (simp add: good_def)

lemma goodD:
  assumes "good P F" "well_formed s" "P s"
  shows "\<exists>s'. F s = Returned s' \<and> well_formed s' \<and> draws s s'"
  using assms by (simp add: good_def)

lemma good_Returned: "good P Returned"
  by (rule goodI) (simp add: draws_refl)

lemma good_andThen:
  assumes "good P F" "good Q G" "\<And>s t. P s \<Longrightarrow> draws s t \<Longrightarrow> Q t"
  shows "good P (\<lambda>s. andThen (F s) G)"
proof (rule goodI)
  fix s assume s: "well_formed s" "P s"
  from goodD[OF assms(1) s] obtain t where t: "F s = Returned t" "well_formed t" "draws s t"
    by blast
  from goodD[OF assms(2) t(2) assms(3)[OF s(2) t(3)]] obtain u where
    u: "G t = Returned u" "well_formed u" "draws t u" by blast
  from t u show "\<exists>s'. andThen (F s) G = Returned s' \<and> well_formed s' \<and> draws s s'"
    using draws_trans by auto
qed

lemma good_forLoop:
  assumes "\<And>i. i \<in> set idx \<Longrightarrow> good P (body i)" "\<And>s t. P s \<Longrightarrow> draws s t \<Longrightarrow> P t"
  shows "good P (forLoop idx body)"
proof (rule goodI)
  fix s assume s: "well_formed s" "P s"
  have "\<exists>s'. forLoop idx body s = Returned s' \<and> (well_formed s' \<and> P s' \<and> draws s s')"
  proof (rule forLoop_Returned_inv)
    show "well_formed s \<and> P s \<and> draws s s" using s by (simp add: draws_refl)
  next
    fix i t assume i: "i \<in> set idx" and t: "well_formed t \<and> P t \<and> draws s t"
    from goodD[OF assms(1)[OF i]] t obtain t' where
      t': "body i t = Returned t'" "well_formed t'" "draws t t'" by blast
    with t assms(2) draws_trans
    show "\<exists>s'. body i t = Returned s' \<and> (well_formed s' \<and> P s' \<and> draws s s')" by blast
  qed
  then show "\<exists>s'. forLoop idx body s = Returned s' \<and> well_formed s' \<and> draws s s'" by blast
qed

lemma good_if:
  assumes "good (\<lambda>s. P s \<and> c s) F" "good (\<lambda>s. P s \<and> \<not> c s) G"
  shows "good P (\<lambda>s. if c s then F s else G s)"
  using assms by (simp add: good_def)

lemma good_setFuncBlocks:
  assumes "\<And>s. well_formed s \<Longrightarrow> P s \<Longrightarrow>
     0 \<le> x s \<and> x s < size' s \<and> 0 \<le> y s \<and> y s < size' s \<and>
     timing_write_ok (size' s) (x s) (y s) (v s)"
  shows "good P (\<lambda>s. setFuncBlocks (x s) (y s) (v s) s)"
proof (rule goodI)
  fix s assume s: "well_formed s" "P s"
  from assms[OF s] show "\<exists>s'. setFuncBlocks (x s) (y s) (v s) s = Returned s' \<and> well_formed s' \<and> draws s s'"
    by (intro setFuncBlocks_good[OF s(1)]) simp_all
qed

lemma well_formed_size: "well_formed s \<Longrightarrow> 21 \<le> size' s"
  by (simp add: well_formed_def)

lemma finder_at_draws: "finder_at cx cy s \<Longrightarrow> draws s t \<Longrightarrow> finder_at cx cy t"
  by (simp add: finder_at_def draws_size)

lemma setFinderBlocks_good: "good (finder_at cx cy) (setFinderBlocks cx cy)"
  unfolding setFinderBlocks_def Let_def
proof (intro good_forLoop good_if good_Returned good_setFuncBlocks)
  fix dy dx s
  assume "dy \<in> set [-4..4]" "dx \<in> set [-4..4]" "well_formed s"
    and "finder_at cx cy s \<and> 0 \<le> cx + dx \<and> cx + dx < size' s \<and> 0 \<le> cy + dy \<and> cy + dy < size' s"
  then show "0 \<le> cx + dx \<and> cx + dx < size' s \<and> 0 \<le> cy + dy \<and> cy + dy < size' s \<and>
     timing_write_ok (size' s) (cx + dx) (cy + dy) (max \<bar>dx\<bar> \<bar>dy\<bar> \<noteq> 2 \<and> max \<bar>dx\<bar> \<bar>dy\<bar> \<noteq> 4)"
    using well_formed_size[of s] by (auto simp: finder_at_def intro!: timing_write_okI)
qed (auto intro: finder_at_draws)

lemma determineAlignmentPos_version:
  "determineAlignmentPos s = determineAlignmentPos (raw0\<lparr>version' := version' s\<rparr>)"
  by (simp add: determineAlignmentPos_def)

lemma alignment_tracks_eval:
  "list_all (\<lambda>v. case determineAlignmentPos (raw0\<lparr>version' := v\<rparr>) of
                   Returned pat \<Rightarrow> list_all (track_ok v) pat
                 | _ \<Rightarrow> False) [1..40]"
  by code_simp

lemma alignment_tracks:
  assumes "1 \<le> version' s" "version' s \<le> 40"
  shows "\<exists>pat. determineAlignmentPos s = Returned pat \<and> (\<forall>t \<in> set pat. track_ok (version' s) t)"
proof -
  from assms have "version' s \<in> set [1..40]" by simp
  with alignment_tracks_eval have
    "case determineAlignmentPos (raw0\<lparr>version' := version' s\<rparr>) of
       Returned pat \<Rightarrow> list_all (track_ok (version' s)) pat | _ \<Rightarrow> False"
    unfolding list_all_iff by blast
  then show ?thesis
    unfolding determineAlignmentPos_version[of s] list_all_iff
    by (auto split: outcome.splits)
qed

lemma setAlignmentBlocks_good: "good (centre_at a b) (setAlignmentBlocks a b)"
  unfolding setAlignmentBlocks_def
proof (intro good_forLoop good_setFuncBlocks)
  fix dy dx s
  assume dy: "dy \<in> set [-2..2]" and dx: "dx \<in> set [-2..2]" and s: "well_formed s"
    and c: "centre_at a b s"
  have dxs: "dx = -2 \<or> dx = -1 \<or> dx = 0 \<or> dx = 1 \<or> dx = 2" using dx by auto
  have dys: "dy = -2 \<or> dy = -1 \<or> dy = 0 \<or> dy = 1 \<or> dy = 2" using dy by auto
  from c have a: "even a" "a = 6 \<or> 9 \<le> a" "a + 2 < size' s"
    and b: "even b" "b = 6 \<or> 9 \<le> b" "b + 2 < size' s"
    using s by (auto simp: centre_at_def track_ok_def well_formed_def)
  have r: "(max \<bar>dx\<bar> \<bar>dy\<bar> \<noteq> 1) = even (a + dx)" if "b + dy = 6"
  proof -
    from that b(2) dys have "dy = 0" by auto
    with dxs a(1) show ?thesis by auto
  qed
  have cc: "(max \<bar>dx\<bar> \<bar>dy\<bar> \<noteq> 1) = even (b + dy)" if "a + dx = 6"
  proof -
    from that a(2) dxs have "dx = 0" by auto
    with dys b(1) show ?thesis by auto
  qed
  have "timing_write_ok (size' s) (a + dx) (b + dy) (max \<bar>dx\<bar> \<bar>dy\<bar> \<noteq> 1)"
    using r cc by (simp add: timing_write_ok_def)
  moreover have "0 \<le> a + dx \<and> a + dx < size' s \<and> 0 \<le> b + dy \<and> b + dy < size' s"
    using a b dxs dys by auto
  ultimately show "0 \<le> a + dx \<and> a + dx < size' s \<and> 0 \<le> b + dy \<and> b + dy < size' s \<and>
     timing_write_ok (size' s) (a + dx) (b + dy) (max \<bar>dx\<bar> \<bar>dy\<bar> \<noteq> 1)" by simp
qed (auto simp: centre_at_def draws_version)

lemma good_weaken:
  assumes "good Q F" "\<And>s. well_formed s \<Longrightarrow> P s \<Longrightarrow> Q s"
  shows "good P F"
  using assms by (simp add: good_def)

lemma good_dep:
  assumes "\<And>s. well_formed s \<Longrightarrow> P s \<Longrightarrow> good (Q s) (F s) \<and> Q s s"
  shows "good P (\<lambda>s. F s s)"
proof (rule goodI)
  fix s assume s: "well_formed s" "P s"
  from assms[OF s] goodD[of "Q s" "F s" s] s(1)
  show "\<exists>s'. F s s = Returned s' \<and> well_formed s' \<and> draws s s'" by blast
qed

lemma forLoop_cong:
  assumes "\<And>i s. i \<in> set idx \<Longrightarrow> body i s = body' i s"
  shows "forLoop idx body s = forLoop idx body' s"
  using assms
proof (induction idx arbitrary: s)
  case Nil
  then show ?case by simp
next
  case (Cons i idx)
  have "forLoop idx body = forLoop idx body'"
    by (rule ext) (rule Cons.IH, simp add: Cons.prems)
  with Cons.prems show ?case by simp
qed

lemma drawAlignmentBlocks_good: "good (\<lambda>_. True) drawAlignmentBlocks"
proof (rule goodI)
  fix s assume s: "well_formed s"
  then have v: "1 \<le> version' s" "version' s \<le> 40" by (simp_all add: well_formed_def)
  obtain pat where pat: "determineAlignmentPos s = Returned pat"
    and ok: "\<forall>t \<in> set pat. track_ok (version' s) t"
    using alignment_tracks[OF v] by blast
  define n where "n = length pat"
  let ?skip = "\<lambda>i j. (i = 0 \<and> j = 0) \<or> (i = 0 \<and> j = n - 1) \<or> (i = n - 1 \<and> j = 0)"
  let ?inner = "\<lambda>i. forLoop [0..<n] (\<lambda>j st'.
           if \<not> ?skip i j
           then andThen (vec_at pat (int i)) (\<lambda>a.
                andThen (vec_at pat (int j)) (\<lambda>b.
                  setAlignmentBlocks a b st'))
           else Returned st')"
  let ?inner' = "\<lambda>i. forLoop [0..<n] (\<lambda>j st'.
           if \<not> ?skip i j then setAlignmentBlocks (pat ! i) (pat ! j) st' else Returned st')"
  have eq: "drawAlignmentBlocks s = forLoop [0..<n] ?inner' s"
  proof -
    have "forLoop [0..<n] ?inner s = forLoop [0..<n] ?inner' s"
    proof (rule forLoop_cong)
      fix i t assume i: "i \<in> set [0..<n]"
      show "?inner i t = ?inner' i t"
      proof (rule forLoop_cong)
        fix j u assume j: "j \<in> set [0..<n]"
        from i j have "vec_at pat (int i) = Returned (pat ! i)" "vec_at pat (int j) = Returned (pat ! j)"
          by (simp_all add: vec_at_def n_def)
        then show "(if \<not> ?skip i j
           then andThen (vec_at pat (int i)) (\<lambda>a.
                andThen (vec_at pat (int j)) (\<lambda>b. setAlignmentBlocks a b u))
           else Returned u) =
          (if \<not> ?skip i j then setAlignmentBlocks (pat ! i) (pat ! j) u else Returned u)"
          by simp
      qed
    qed
    then show ?thesis by (simp add: drawAlignmentBlocks_def pat Let_def n_def)
  qed
  have "good (\<lambda>t. version' t = version' s) (forLoop [0..<n] ?inner')"
  proof (intro good_forLoop good_if good_Returned)
    fix i j assume "i \<in> set [0..<n]" "j \<in> set [0..<n]"
    then have "pat ! i \<in> set pat" "pat ! j \<in> set pat" by (simp_all add: n_def)
    with ok have "track_ok (version' s) (pat ! i)" "track_ok (version' s) (pat ! j)" by simp_all
    then show "good (\<lambda>t. version' t = version' s \<and> \<not> ?skip i j)
                 (setAlignmentBlocks (pat ! i) (pat ! j))"
      by (intro good_weaken[OF setAlignmentBlocks_good]) (simp add: centre_at_def)
  qed (simp_all add: draws_version)
  from goodD[OF this s] show "\<exists>s'. drawAlignmentBlocks s = Returned s' \<and> well_formed s' \<and> draws s s'"
    by (simp add: eq)
qed

lemma drawFormat_good: "good (\<lambda>_. True) (drawFormat m)"
proof (rule goodI)
  fix s assume s: "well_formed s"
  define bits where "bits =
     (push_bit 10 (push_bit 3 (formatBits (correctionLevel' s)) OR m) OR
      ((\<lambda>r. push_bit 1 r XOR (drop_bit 9 r * 0x537)) ^^ 10)
        (push_bit 3 (formatBits (correctionLevel' s)) OR m)) XOR 0x5412"
  let ?F = "\<lambda>st.
      andThen (forLoop [0..<9] (\<lambda>i st'.
                 if i \<le> 5 then setFuncBlocks 8 (int i) (bit bits i) st'
                 else if i = 6 then Returned st'
                 else setFuncBlocks 8 (int i) (bit bits (i - 1)) st') st) (\<lambda>st1.
      andThen (setFuncBlocks 7 8 (bit bits 8) st1) (\<lambda>st2.
      andThen (forLoop [9..<15] (\<lambda>i. setFuncBlocks (14 - int i) 8 (bit bits i)) st2) (\<lambda>st3.
      andThen (forLoop [0..<8] (\<lambda>i st'. setFuncBlocks (size' st' - 1 - int i) 8 (bit bits i) st') st3) (\<lambda>st4.
      andThen (forLoop [8..<15] (\<lambda>i st'. setFuncBlocks 8 (size' st' - 15 + int i) (bit bits i) st') st4) (\<lambda>st5.
        setFuncBlocks 8 (size' st5 - 8) True st5)))))"
  have "good (\<lambda>_. True) ?F"
    by (intro good_andThen[where Q = "\<lambda>_. True"] good_forLoop good_if good_Returned
          good_setFuncBlocks)
       (auto simp: timing_write_ok_def dest: well_formed_size)
  moreover have "drawFormat m s = ?F s"
    by (simp only: drawFormat_def Let_def bits_def)
  ultimately show "\<exists>s'. drawFormat m s = Returned s' \<and> well_formed s' \<and> draws s s'"
    using goodD[of "\<lambda>_. True" ?F s] s by simp
qed

lemma drawVersion_good: "good (\<lambda>_. True) drawVersion"
proof (rule goodI)
  fix s assume s: "well_formed s"
  define vb where "vb = push_bit 12 (version' s) OR
     ((\<lambda>r. push_bit 1 r XOR (drop_bit 11 r * 0x1F25)) ^^ 12) (version' s)"
  have "good (\<lambda>_. True) (forLoop [0..<18] (\<lambda>i st'.
          andThen (setFuncBlocks (size' st' - 11 + int (i mod 3)) (int (i div 3)) (bit vb i) st')
            (\<lambda>st''. setFuncBlocks (int (i div 3)) (size' st'' - 11 + int (i mod 3)) (bit vb i) st'')))"
    by (intro good_andThen[where Q = "\<lambda>_. True"] good_forLoop good_setFuncBlocks)
       (auto simp: timing_write_ok_def dest: well_formed_size)
  from goodD[OF this s] show "\<exists>s'. drawVersion s = Returned s' \<and> well_formed s' \<and> draws s s'"
    using s by (auto simp: drawVersion_def Let_def vb_def draws_refl)
qed

lemma timing_loop_good:
  "good (\<lambda>t. size' t = n) (forLoop [0..n - 1] (\<lambda>i st'.
      andThen (setFuncBlocks i 6 (cmod i 2 = 0) st') (setFuncBlocks 6 i (cmod i 2 = 0))))"
proof (intro good_andThen[where Q = "\<lambda>t. size' t = n"] good_forLoop good_setFuncBlocks)
  fix i s assume i: "i \<in> set [0..n - 1]" and s: "well_formed s" "size' s = n"
  have "(cmod i 2 = 0) = even i" using i by (auto simp: cmod_nonneg)
  then show "0 \<le> i \<and> i < size' s \<and> 0 \<le> (6::int) \<and> 6 < size' s \<and>
             timing_write_ok (size' s) i 6 (cmod i 2 = 0)"
    and "0 \<le> (6::int) \<and> 6 < size' s \<and> 0 \<le> i \<and> i < size' s \<and>
             timing_write_ok (size' s) 6 i (cmod i 2 = 0)"
    using i s well_formed_size[OF s(1)] by (auto simp: timing_write_ok_def)
qed (simp_all add: draws_size)

lemma patterns_rest_good:
  "good (\<lambda>_. True) (\<lambda>st1.
     andThen (setFinderBlocks 3 3 st1) (\<lambda>st2.
     andThen (setFinderBlocks (size' st2 - 4) 3 st2) (\<lambda>st3.
     andThen (setFinderBlocks 3 (size' st3 - 4) st3) (\<lambda>st4.
     andThen (drawAlignmentBlocks st4) (\<lambda>st5.
     andThen (drawFormat (mask' st5) st5) drawVersion)))))"
proof -
  have f1: "good (\<lambda>_. True) (setFinderBlocks 3 3)"
    by (rule good_weaken[OF setFinderBlocks_good]) (simp add: finder_at_def)
  have f2: "good (\<lambda>_. True) (\<lambda>s. setFinderBlocks (size' s - 4) 3 s)"
    by (rule good_dep[where Q = "\<lambda>s. finder_at (size' s - 4) 3"])
       (simp add: setFinderBlocks_good finder_at_def)
  have f3: "good (\<lambda>_. True) (\<lambda>s. setFinderBlocks 3 (size' s - 4) s)"
    by (rule good_dep[where Q = "\<lambda>s. finder_at 3 (size' s - 4)"])
       (simp add: setFinderBlocks_good finder_at_def)
  have f5: "good (\<lambda>_. True) (\<lambda>s. drawFormat (mask' s) s)"
    by (rule good_dep[where Q = "\<lambda>s t. True"]) (simp add: drawFormat_good)
  show ?thesis
    by (intro good_andThen[where Q = "\<lambda>_. True"] f1 f2 f3 f5 drawAlignmentBlocks_good
          drawVersion_good) simp_all
qed

lemma drawPatterns_good:
  assumes "well_formed s"
  shows "\<exists>s'. drawPatterns s = Returned s' \<and> well_formed s' \<and> draws s s' \<and>
              (\<forall>p. 0 \<le> p \<and> p < size' s \<longrightarrow> reserved s' (nat p) 6 \<and> reserved s' 6 (nat p))"
proof -
  let ?body = "\<lambda>i st'. andThen (setFuncBlocks i 6 (cmod i 2 = 0) st') (setFuncBlocks 6 i (cmod i 2 = 0))"
  obtain s1 where s1: "forLoop [0..size' s - 1] ?body s = Returned s1" "well_formed s1" "draws s s1"
    using goodD[OF timing_loop_good[of "size' s"] assms] by auto
  have res1: "reserved s1 (nat p) 6 \<and> reserved s1 6 (nat p)" if p: "0 \<le> p" "p < size' s" for p
  proof (rule forLoop_establish[OF s1(1), where p = p])
    show "p \<in> set [0..size' s - 1]" using p by simp
  next
    fix t t' assume "?body p t = Returned t'"
    then obtain u where u: "setFuncBlocks p 6 (cmod p 2 = 0) t = Returned u"
      "setFuncBlocks 6 p (cmod p 2 = 0) u = Returned t'"
      unfolding andThen_Returned_iff by blast
    from setFuncBlocks_reserved(1)[OF u(1)] setFuncBlocks_reserved[OF u(2)]
    show "reserved t' (nat p) 6 \<and> reserved t' 6 (nat p)" by simp
  next
    fix i t t' assume "reserved t (nat p) 6 \<and> reserved t 6 (nat p)" "?body i t = Returned t'"
    then show "reserved t' (nat p) 6 \<and> reserved t' 6 (nat p)"
      unfolding andThen_Returned_iff using setFuncBlocks_reserved(2) by blast
  qed
  obtain s' where s': "andThen (setFinderBlocks 3 3 s1) (\<lambda>st2.
     andThen (setFinderBlocks (size' st2 - 4) 3 st2) (\<lambda>st3.
     andThen (setFinderBlocks 3 (size' st3 - 4) st3) (\<lambda>st4.
     andThen (drawAlignmentBlocks st4) (\<lambda>st5.
     andThen (drawFormat (mask' st5) st5) drawVersion)))) = Returned s'"
    "well_formed s'" "draws s1 s'"
    using goodD[OF patterns_rest_good s1(2)] by auto
  have "drawPatterns s = Returned s'"
    by (simp add: drawPatterns_def s1(1) s'(1))
  moreover have "draws s s'" using s1(3) s'(3) by (rule draws_trans)
  moreover have "reserved s' (nat p) 6 \<and> reserved s' 6 (nat p)" if "0 \<le> p \<and> p < size' s" for p
    using res1[of p] that s'(3) by (simp add: draws_def)
  ultimately show ?thesis using s'(2) by blast
qed

lemma versionLoop_Returned:
  assumes "versionLoop st len m i = Returned st'" "1 \<le> i"
  shows "\<exists>v l. 1 \<le> v \<and> v \<le> 40 \<and> st' = st\<lparr>version' := v, correctionLevel' := l\<rparr>"
  using assms
proof (induction st len m i rule: versionLoop.induct)
  case (1 st len m i)
  show ?case
  proof (cases "i \<le> 40")
    case False
    with "1.prems"(1) show ?thesis by (subst (asm) versionLoop.simps) simp
  next
    case True
    have eq: "versionLoop st len m i =
        andThen (levelLoop st len m i (ErrCor_to_int kHigh)) (\<lambda>r.
          case r of
            Some level \<Rightarrow> Returned (st\<lparr>version' := i, correctionLevel' := level\<rparr>)
          | None \<Rightarrow> versionLoop st len m (i + 1))"
      using True by (subst versionLoop.simps) simp
    from "1.prems"(1) obtain r where r: "levelLoop st len m i (ErrCor_to_int kHigh) = Returned r"
      and rest: "(case r of
            Some level \<Rightarrow> Returned (st\<lparr>version' := i, correctionLevel' := level\<rparr>)
          | None \<Rightarrow> versionLoop st len m (i + 1)) = Returned st'"
      unfolding eq andThen_Returned_iff by blast
    show ?thesis
    proof (cases r)
      case None
      with rest have "versionLoop st len m (i + 1) = Returned st'" by simp
      from "1.IH"[OF True r None this] "1.prems"(2) show ?thesis by simp
    next
      case (Some level)
      with rest have "st' = st\<lparr>version' := i, correctionLevel' := level\<rparr>" by simp
      with True "1.prems"(2) show ?thesis by blast
    qed
  qed
qed

lemma setVersionAndErrorLevel_Returned:
  assumes "setVersionAndErrorLevel mode len m st = Returned st'"
  shows "\<exists>v l. 1 \<le> v \<and> v \<le> 40 \<and> st' = st\<lparr>version' := v, correctionLevel' := l\<rparr>"
  using versionLoop_Returned[of st len "ErrCor_to_int m" 1 st'] assms
  by (simp add: setVersionAndErrorLevel_def)

lemma square_replicate: "0 \<le> n \<Longrightarrow> square n (replicate (nat n) (replicate (nat n) x))"
  by (simp add: square_def)

lemma allocate_well_formed:
  assumes "1 \<le> version' st" "version' st \<le> 40"
  shows "well_formed (allocate st)" "timing_val (allocate st)"
    "version' (allocate st) = version' st" "size' (allocate st) = 4 * version' st + 17"
    "\<not> reserved (allocate st) x y"
proof -
  show "well_formed (allocate st)"
    using assms by (simp add: allocate_def Let_def well_formed_def square_replicate)
  show r: "\<not> reserved (allocate st) x y" for x y
    by (auto simp: allocate_def Let_def reserved_def)
  show "timing_val (allocate st)"
    by (simp add: timing_val_def r)
  show "version' (allocate st) = version' st" "size' (allocate st) = 4 * version' st + 17"
    by (simp_all add: allocate_def Let_def)
qed

lemma rsGenerateLogExp_frame:
  assumes "rsGenerateLogExp st = Returned st'"
  shows "\<exists>lg ex. st' = st\<lparr>rsLog' := lg, rsExp' := ex\<rparr>"
proof -
  from assms obtain p where
    "(case p of (lg, ex) \<Rightarrow> andThen (vec_set ex 255 1) (\<lambda>ex'.
        Returned (st\<lparr>rsLog' := lg, rsExp' := ex'\<rparr>))) = Returned st'"
    unfolding rsGenerateLogExp_def andThen_Returned_iff[of "logExpLoop _ _ _ _"] by blast
  then obtain lg ex where "andThen (vec_set ex 255 1) (\<lambda>ex'.
        Returned (st\<lparr>rsLog' := lg, rsExp' := ex'\<rparr>)) = Returned st'"
    by (cases p) simp
  then show ?thesis unfolding andThen_Returned_iff by blast
qed

lemma addEDCInterleave_frame:
  assumes "addEDCInterleave d st = Returned (d', st')"
  shows "\<exists>lg ex. st' = st\<lparr>rsLog' := lg, rsExp' := ex\<rparr>"
proof -
  from assms obtain st1 where g: "rsGenerateLogExp st = Returned st1"
    and rest: "andThen (table_at kErr_corr_blocks' (correctionLevel' st1) (version' st1)) (\<lambda>num_blocks.
     andThen (table_at kEC_codewords_per_block' (correctionLevel' st1) (version' st1)) (\<lambda>ECC_per_block.
     let total_codewords = drop_bit 3 (getTotalModules (version' st1)) in
     if num_blocks = 0 then Undefined
     else
       let num_short_blocks = num_blocks - cmod total_codewords num_blocks;
           short_block_len = cdiv total_codewords num_blocks
       in andThen (splitBlocks st1 d num_blocks ECC_per_block num_short_blocks short_block_len)
            (\<lambda>split_blocks.
          andThen (interleave split_blocks ECC_per_block num_short_blocks short_block_len)
            (\<lambda>EDC_interleave. Returned (EDC_interleave, st1))))) = Returned (d', st')"
    unfolding addEDCInterleave_def andThen_Returned_iff[of "rsGenerateLogExp _"] by blast
  from rest have "st' = st1"
    by (auto simp: andThen_Returned_iff Let_def split: if_splits)
  with rsGenerateLogExp_frame[OF g] show ?thesis by simp
qed

lemma QRCode_ctor_stages:
  assumes "QRCode_ctor raw text err msk = Returned qr"
  obtains msk' st1 enc st2 st5 d d' st6 st7 where
    "msk' = (if msk < 0 \<or> msk > 7 then 0 else msk)"
    "st1 = determineEncoding text (initialise raw text err msk')"
    "kEncoding' st1 = Some enc"
    "setVersionAndErrorLevel (getEncodingMode enc) (size_to_int (length text)) err st1 = Returned st2"
    "drawPatterns (allocate st2) = Returned st5"
    "encodeText text st5 = Returned d"
    "addEDCInterleave d (st5\<lparr>data' := d\<rparr>) = Returned (d', st6)"
    "drawCodewords (st6\<lparr>data' := d'\<rparr>) = Returned st7"
    "mask_fn msk' st7 = Returned qr"
proof -
  define msk' where "msk' = (if msk < 0 \<or> msk > 7 then 0 else msk)"
  define st1 where "st1 = determineEncoding text (initialise raw text err msk')"
  have eq: "QRCode_ctor raw text err msk =
      andThen (deref (kEncoding' st1)) (\<lambda>enc.
      andThen (setVersionAndErrorLevel (getEncodingMode enc) (size_to_int (length text)) err st1) (\<lambda>st2.
      andThen (drawPatterns (allocate st2)) (\<lambda>st5.
      andThen (encodeText text st5) (\<lambda>d.
      andThen (addEDCInterleave d (st5\<lparr>data' := d\<rparr>)) (\<lambda>(d', st6).
      andThen (drawCodewords (st6\<lparr>data' := d'\<rparr>)) (mask_fn msk'))))))"
    by (simp only: QRCode_ctor_def Let_def msk'_def st1_def)
  from assms obtain enc where enc: "deref (kEncoding' st1) = Returned enc"
    and r1: "andThen (setVersionAndErrorLevel (getEncodingMode enc) (size_to_int (length text)) err st1) (\<lambda>st2.
      andThen (drawPatterns (allocate st2)) (\<lambda>st5.
      andThen (encodeText text st5) (\<lambda>d.
      andThen (addEDCInterleave d (st5\<lparr>data' := d\<rparr>)) (\<lambda>(d', st6).
      andThen (drawCodewords (st6\<lparr>data' := d'\<rparr>)) (mask_fn msk'))))) = Returned qr"
    unfolding eq andThen_Returned_iff[of "deref (kEncoding' st1)"] by blast
  from r1 obtain st2 where st2: "setVersionAndErrorLevel (getEncodingMode enc) (size_to_int (length text)) err st1 = Returned st2"
    and r2: "andThen (drawPatterns (allocate st2)) (\<lambda>st5.
      andThen (encodeText text st5) (\<lambda>d.
      andThen (addEDCInterleave d (st5\<lparr>data' := d\<rparr>)) (\<lambda>(d', st6).
      andThen (drawCodewords (st6\<lparr>data' := d'\<rparr>)) (mask_fn msk')))) = Returned qr"
    unfolding andThen_Returned_iff[of "setVersionAndErrorLevel _ _ _ _"] by blast
  from r2 obtain st5 where st5: "drawPatterns (allocate st2) = Returned st5"
    and r3: "andThen (encodeText text st5) (\<lambda>d.
      andThen (addEDCInterleave d (st5\<lparr>data' := d\<rparr>)) (\<lambda>(d', st6).
      andThen (drawCodewords (st6\<lparr>data' := d'\<rparr>)) (mask_fn msk'))) = Returned qr"
    unfolding andThen_Returned_iff[of "drawPatterns _"] by blast
  from r3 obtain d where d: "encodeText text st5 = Returned d"
    and r4: "andThen (addEDCInterleave d (st5\<lparr>data' := d\<rparr>)) (\<lambda>(d', st6).
      andThen (drawCodewords (st6\<lparr>data' := d'\<rparr>)) (mask_fn msk')) = Returned qr"
    unfolding andThen_Returned_iff[of "encodeText _ _"] by blast
  from r4 obtain p where p: "addEDCInterleave d (st5\<lparr>data' := d\<rparr>) = Returned p"
    and r5: "(case p of (d', st6) \<Rightarrow>
      andThen (drawCodewords (st6\<lparr>data' := d'\<rparr>)) (mask_fn msk')) = Returned qr"
    unfolding andThen_Returned_iff[of "addEDCInterleave _ _"] by blast
  obtain d' st6 where p': "p = (d', st6)" by (cases p)
  from r5 obtain st7 where st7: "drawCodewords (st6\<lparr>data' := d'\<rparr>) = Returned st7"
    and r6: "mask_fn msk' st7 = Returned qr"
    unfolding p' prod.case andThen_Returned_iff by blast
  from enc have "kEncoding' st1 = Some enc" by (simp add: deref_def split: option.splits)
  from that[OF msk'_def st1_def this st2 st5 d p[unfolded p'] st7 r6] show thesis .
qed

section \<open>Splitting the data into blocks\<close>

lemma forLoop_upto_Returned:
  assumes "I a s" "a \<le> b + 1"
    and "\<And>i s. a \<le> i \<Longrightarrow> i \<le> b \<Longrightarrow> I i s \<Longrightarrow> \<exists>s'. body i s = Returned s' \<and> I (i + 1) s'"
  shows "\<exists>s'. forLoop [a..b] body s = Returned s' \<and> I (b + 1) s'"
  using assms
proof (induction "nat (b + 1 - a)" arbitrary: a s)
  case 0
  then have "a = b + 1" by simp
  with 0 show ?case by simp
next
  case (Suc k)
  then have le: "a \<le> b" by simp
  then have up: "[a..b] = a # [a + 1..b]" by (simp add: upto_rec1)
  from Suc.prems(3)[OF _ le Suc.prems(1)] obtain s1 where
    s1: "body a s = Returned s1" "I (a + 1) s1" by auto
  have "\<exists>s'. forLoop [a + 1..b] body s1 = Returned s' \<and> I (b + 1) s'"
  proof (rule Suc.hyps(1))
    show "k = nat (b + 1 - (a + 1))" using Suc.hyps(2) by simp
    show "I (a + 1) s1" by (rule s1(2))
    show "a + 1 \<le> b + 1" using le by simp
    fix i t assume "a + 1 \<le> i" "i \<le> b" "I i t"
    then show "\<exists>s'. body i t = Returned s' \<and> I (i + 1) s'"
      using Suc.prems(3)[of i t] by simp
  qed
  with s1(1) up show ?case by simp
qed

lemma splitBlocks_blocks:
  assumes t: "tables256 st"
    and B: "1 \<le> B" and E: "1 \<le> E" "E \<le> 256" "E < sl" and sh: "0 \<le> short" "short \<le> B"
    and sl: "sl < 2 ^ 31"
    and len: "int (length data) = B * (sl - E) + (B - short)"
  shows "\<exists>blocks. splitBlocks st data B E short sl = Returned blocks \<and> length blocks = nat B \<and>
           (\<forall>k < nat B. block_ok data sl E short k (blocks ! k))"
proof -
  let ?body = "\<lambda>i (j, split_blocks).
             let n = blockDataLen sl E short i in
             if j < 0 \<or> n < 0 \<or> j + n > int (length data) then Undefined
             else let block = take (nat n) (drop (nat j) data) in
               andThen (generateEDC st block (sl + (if i < short then 0 else 1)))
                 (\<lambda>edc. Returned (j + int (length block),
                      split_blocks @ [block @ (if i < short then [0] else []) @ edc]))"
  let ?I = "\<lambda>i (p :: int \<times> uint8 list list).
       fst p = i * (sl - E) + max 0 (i - short) \<and> length (snd p) = nat i \<and>
       (\<forall>k < nat i. block_ok data sl E short k (snd p ! k))"
  have "\<exists>s'. forLoop [0..B - 1] ?body (0, []) = Returned s' \<and> ?I (B - 1 + 1) s'"
  proof (rule forLoop_upto_Returned[where I = ?I])
    show "?I 0 (0, [])" using sh by simp
    show "0 \<le> B - 1 + 1" using B by simp
  next
    fix i :: int and p :: "int \<times> uint8 list list"
    assume i: "0 \<le> i" "i \<le> B - 1" and I: "?I i p"
    obtain j bl where p: "p = (j, bl)" by (cases p)
    define dl where "dl = (if i < short then 0 else 1 :: int)"
    define n where "n = sl - E + dl"
    from I p have j: "j = i * (sl - E) + max 0 (i - short)" and lb: "length bl = nat i"
      and oks: "\<forall>k < nat i. block_ok data sl E short k (bl ! k)" by simp_all
    have dl: "0 \<le> dl" "dl \<le> 1" by (simp_all add: dl_def)
    have n: "1 \<le> n" using E dl by (simp add: n_def)
    have j0: "0 \<le> j" using i E by (simp add: j)
    have mx: "max 0 (i - short) + dl = max 0 (i + 1 - short)" by (auto simp: dl_def)
    have jn: "j + n = (i + 1) * (sl - E) + max 0 (i + 1 - short)"
      using mx by (simp add: j n_def algebra_simps)
    have "(i + 1) * (sl - E) \<le> B * (sl - E)"
      using i E by (intro mult_right_mono) simp_all
    moreover have "max 0 (i + 1 - short) \<le> B - short" using i sh by simp
    ultimately have fit: "j + n \<le> int (length data)" using jn len by linarith
    define block where "block = take (nat n) (drop (nat j) data)"
    have lblock: "int (length block) = n"
      using fit j0 n by (simp add: block_def)
    have "block \<noteq> []" using lblock n by auto
    moreover have "int (length block) \<le> sl + dl" using lblock E by (simp add: n_def)
    moreover have "sl + dl - int (length block) \<le> 256" using lblock E by (simp add: n_def)
    moreover have "sl + dl < 2 ^ 32" using sl dl by simp
    ultimately obtain edc where edc: "generateEDC st block (sl + dl) = Returned edc"
      "int (length edc) = sl + dl - int (length block)"
      using generateEDC_length[OF t, of block "sl + dl"] by blast
    have le: "length edc = nat E" using edc(2) lblock by (simp add: n_def)
    let ?new = "block @ (if i < short then [0] else []) @ edc"
    have step: "?body i p = Returned (j + int (length block), bl @ [?new])"
      using fit j0 n edc(1)
      by (simp add: p Let_def blockDataLen_def n_def[symmetric] dl_def[symmetric] block_def[symmetric])
    have ik: "int (nat i) = i" using i by simp
    have new_ok: "block_ok data sl E short (nat i) ?new"
      unfolding block_ok_def blockDataLen_def blockStart_def ik
      using le j j0 fit n by (intro exI[of _ edc]) (simp add: block_def n_def dl_def)
    have "block_ok data sl E short k ((bl @ [?new]) ! k)" if "k < nat (i + 1)" for k
    proof (cases "k < nat i")
      case True
      with oks lb show ?thesis by (simp add: nth_append)
    next
      case False
      with that i have "k = nat i" by linarith
      with lb new_ok show ?thesis by (simp add: nth_append)
    qed
    moreover have "j + int (length block) = (i + 1) * (sl - E) + max 0 (i + 1 - short)"
      using lblock jn by simp
    moreover have "length (bl @ [?new]) = nat (i + 1)" using lb i by simp
    ultimately show "\<exists>s'. ?body i p = Returned s' \<and> ?I (i + 1) s'"
      using step by simp
  qed
  then obtain jf blocks where r: "forLoop [0..B - 1] ?body (0, []) = Returned (jf, blocks)"
    and lb: "length blocks = nat B" and ok: "\<forall>k < nat B. block_ok data sl E short k (blocks ! k)"
    by auto
  have "splitBlocks st data B E short sl = Returned blocks"
    by (simp add: splitBlocks_def r)
  with lb ok show ?thesis by blast
qed

lemma params_eval:
  "list_all (\<lambda>v. list_all (params_ok v) [kLow, kMedium, kQuartile, kHigh]) [1..40]"
  by code_simp

lemma params:
  assumes "1 \<le> v" "v \<le> 40"
  obtains B E where "table_at kErr_corr_blocks' l v = Returned B"
    "table_at kEC_codewords_per_block' l v = Returned E"
    "1 \<le> B" "1 \<le> E" "E \<le> 256" "E < cdiv (drop_bit 3 (getTotalModules v)) B"
    "0 \<le> drop_bit 3 (getTotalModules v)" "drop_bit 3 (getTotalModules v) < 2 ^ 16"
proof -
  from assms have "v \<in> set [1..40]" by simp
  moreover have "l \<in> set [kLow, kMedium, kQuartile, kHigh]" by (cases l) simp_all
  ultimately have "params_ok v l" using params_eval unfolding list_all_iff by blast
  then show thesis
    unfolding params_ok_def by (auto split: outcome.splits intro: that)
qed

lemma split_arith:
  fixes T B E :: int
  assumes "1 \<le> B" "0 \<le> T"
  shows "0 \<le> B - cmod T B" "B - cmod T B \<le> B"
    "T - B * E = B * (cdiv T B - E) + (B - (B - cmod T B))"
proof -
  have m: "cmod T B = T mod B" and d: "cdiv T B = T div B"
    using assms by (simp_all add: cmod_nonneg cdiv_nonneg)
  have "0 \<le> T mod B" "T mod B < B" using assms by simp_all
  then show "0 \<le> B - cmod T B" "B - cmod T B \<le> B" by (simp_all add: m)
  have "T = B * (T div B) + T mod B" by simp
  then show "T - B * E = B * (cdiv T B - E) + (B - (B - cmod T B))"
    by (simp add: m d algebra_simps)
qed

lemma splitBlocks_valid:
  assumes "1 \<le> v" "v \<le> 40" "tables256 st"
    and "getTotalCodewords v l = Returned (int (length data))"
    and BE: "table_at kErr_corr_blocks' l v = Returned B"
      "table_at kEC_codewords_per_block' l v = Returned E"
    and T: "T = drop_bit 3 (getTotalModules v)"
  shows "\<exists>blocks. splitBlocks st data B E (B - cmod T B) (cdiv T B) = Returned blocks \<and>
     length blocks = nat B \<and>
     (\<forall>k < nat B. block_ok data (cdiv T B) E (B - cmod T B) k (blocks ! k))"
    and "1 \<le> B" "1 \<le> E" "E < cdiv T B"
proof -
  obtain B' E' where BE': "table_at kErr_corr_blocks' l v = Returned B'"
    "table_at kEC_codewords_per_block' l v = Returned E'"
    and p': "1 \<le> B'" "1 \<le> E'" "E' \<le> 256" "E' < cdiv T B'" "0 \<le> T" "T < 2 ^ 16"
    unfolding T by (rule params[OF assms(1,2)])
  from BE BE' have "B' = B" "E' = E" by simp_all
  with p' have p: "1 \<le> B" "1 \<le> E" "E \<le> 256" "E < cdiv T B" "0 \<le> T" "T < 2 ^ 16"
    by simp_all
  show "1 \<le> B" "1 \<le> E" "E < cdiv T B" by (rule p)+
  define sl where "sl = cdiv T B"
  define short where "short = B - cmod T B"
  from assms(4) BE have len: "int (length data) = T - B * E"
    by (simp add: getTotalCodewords_def T)
  have sh: "0 \<le> short" "short \<le> B" and len': "int (length data) = B * (sl - E) + (B - short)"
    using split_arith(1,2)[OF p(1) p(5)] split_arith(3)[OF p(1) p(5), of E] len
    by (simp_all add: short_def sl_def)
  have "sl \<le> T" using p(1,5) zdiv_mono2[of T 1 B] by (simp add: sl_def cdiv_nonneg)
  then have sl31: "sl < 2 ^ 31" using p(6) by simp
  show "\<exists>blocks. splitBlocks st data B E (B - cmod T B) (cdiv T B) = Returned blocks \<and>
     length blocks = nat B \<and>
     (\<forall>k < nat B. block_ok data (cdiv T B) E (B - cmod T B) k (blocks ! k))"
    using splitBlocks_blocks[OF assms(3) p(1,2,3) p(4)[folded sl_def] sh sl31 len']
    unfolding sl_def short_def by blast
qed

lemma block_ok_length:
  assumes "block_ok data sl E short k block"
  shows "\<exists>d edc. block = d @ (if int k < short then [0] else []) @ edc \<and>
     take (length d) (drop (blockStart sl E short k) data) = d \<and>
     length edc = nat E \<and>
     int (length d) = sl - E + (if int k < short then 0 else 1)"
proof -
  from assms obtain edc where e: "length edc = nat E"
    "int (blockStart sl E short k) + blockDataLen sl E short (int k) \<le> int (length data)"
    "0 \<le> blockDataLen sl E short (int k)"
    "block = take (nat (blockDataLen sl E short (int k))) (drop (blockStart sl E short k) data)
        @ (if int k < short then [0] else []) @ edc"
    unfolding block_ok_def by blast
  let ?d = "take (nat (blockDataLen sl E short (int k))) (drop (blockStart sl E short k) data)"
  have l: "int (length ?d) = blockDataLen sl E short (int k)" using e(2,3) by simp
  then have "int (length ?d) = sl - E + (if int k < short then 0 else 1)"
    by (simp add: blockDataLen_def)
  moreover from l have "nat (blockDataLen sl E short (int k)) = length ?d" by linarith
  then have "take (length ?d) (drop (blockStart sl E short k) data) = ?d" by simp
  ultimately show ?thesis using e(1,4) by blast
qed

text \<open>
  C2 (with the order of the blocks as the code has it). For every version in 1..40 and every
  level, with \<open>num_blocks\<close> and \<open>ECC_per_block\<close> read from the two tables,
  \<open>total_codewords\<close> the codeword capacity of the version, \<open>short_block_len\<close> the truncated
  quotient \<open>total_codewords / num_blocks\<close> and \<open>num_short_blocks = num_blocks -
  total_codewords % num_blocks\<close>, as \<open>addEDCInterleave\<close> computes them: splitting the
  packed data codewords returns \<open>num_blocks\<close> blocks; block \<open>k\<close> is a slice \<open>d\<close> of the
  data, one padding byte if the block is short, and \<open>ECC_per_block\<close> correction bytes;
  the length of \<open>d\<close> is \<open>short_block_len - ECC_per_block\<close> for the first
  \<open>num_short_blocks\<close> blocks and \<open>short_block_len - ECC_per_block + 1\<close> for the blocks
  after them. So every data length is one of the two values, and the short blocks are the
  first ones.
\<close>

theorem splitBlocks_lengths:
  assumes "1 \<le> v" "v \<le> 40" "tables256 st"
    and "getTotalCodewords v l = Returned (int (length data))"
    and "table_at kErr_corr_blocks' l v = Returned num_blocks"
    and "table_at kEC_codewords_per_block' l v = Returned ECC_per_block"
    and "total_codewords = drop_bit 3 (getTotalModules v)"
    and "num_short_blocks = num_blocks - cmod total_codewords num_blocks"
    and "short_block_len = cdiv total_codewords num_blocks"
  shows "\<exists>blocks.
     splitBlocks st data num_blocks ECC_per_block num_short_blocks short_block_len
       = Returned blocks \<and>
     length blocks = nat num_blocks \<and>
     (\<forall>k < nat num_blocks. \<exists>d edc.
        blocks ! k = d @ (if int k < num_short_blocks then [0] else []) @ edc \<and>
        take (length d) (drop (blockStart short_block_len ECC_per_block num_short_blocks k) data) = d \<and>
        length edc = nat ECC_per_block \<and>
        int (length d) = short_block_len - ECC_per_block
           + (if int k < num_short_blocks then 0 else 1))"
proof -
  obtain blocks where b:
    "splitBlocks st data num_blocks ECC_per_block num_short_blocks short_block_len = Returned blocks"
    "length blocks = nat num_blocks"
    "\<forall>k < nat num_blocks.
       block_ok data short_block_len ECC_per_block num_short_blocks k (blocks ! k)"
    using splitBlocks_valid(1)[OF assms(1-7)] unfolding assms(8,9) by blast
  from b(3) have "\<forall>k < nat num_blocks. \<exists>d edc.
        blocks ! k = d @ (if int k < num_short_blocks then [0] else []) @ edc \<and>
        take (length d) (drop (blockStart short_block_len ECC_per_block num_short_blocks k) data) = d \<and>
        length edc = nat ECC_per_block \<and>
        int (length d) = short_block_len - ECC_per_block
           + (if int k < num_short_blocks then 0 else 1)"
    using block_ok_length by blast
  with b(1,2) show ?thesis by blast
qed

lemma tables256_generated:
  assumes "rsGenerateLogExp st = Returned st'" "rsLog' st = replicate 256 0" "rsExp' st = replicate 256 0"
  shows "tables256 st'"
  using rsGenerateLogExp_tables[OF assms] by (auto simp: tables256_def tables_ok_def)

lemma params_5Q:
  "table_at kErr_corr_blocks' kQuartile 5 = Returned 4"
  "table_at kEC_codewords_per_block' kQuartile 5 = Returned 18"
  "drop_bit 3 (getTotalModules 5) = 134" "cdiv 134 4 = 33" "cmod 134 4 = 2"
  "getTotalCodewords 5 kQuartile = Returned 62"
  by (simp_all add: table_at_def kErr_corr_blocks'_def kEC_codewords_per_block'_def
        getTotalModules_def getTotalCodewords_def cdiv_def cmod_def drop_bit_eq_div Let_def)

theorem splitBlocks_lengths_witness:
  "\<exists>st' blocks.
     rsGenerateLogExp (raw0\<lparr>rsLog' := replicate 256 0, rsExp' := replicate 256 0\<rparr>) = Returned st' \<and>
     getTotalCodewords 5 kQuartile = Returned (int (length (replicate 62 (1::uint8)))) \<and>
     table_at kErr_corr_blocks' kQuartile 5 = Returned 4 \<and>
     table_at kEC_codewords_per_block' kQuartile 5 = Returned 18 \<and>
     (134::int) = drop_bit 3 (getTotalModules 5) \<and> (2::int) = 4 - cmod 134 4 \<and>
     (33::int) = cdiv 134 4 \<and>
     splitBlocks st' (replicate 62 1) 4 18 2 33 = Returned blocks \<and> length blocks = 4 \<and>
     (\<exists>d edc. blocks ! 0 = d @ [0] @ edc \<and> length edc = 18 \<and> d = replicate 15 1) \<and>
     (\<exists>d edc. blocks ! 3 = d @ edc \<and> length edc = 18 \<and> d = replicate 16 1)"
proof -
  let ?st = "raw0\<lparr>rsLog' := replicate 256 0, rsExp' := replicate 256 0\<rparr>"
  obtain st' where g: "rsGenerateLogExp ?st = Returned st'"
    using rsGenerateLogExp_Returned[of ?st] by auto
  have t: "tables256 st'" by (rule tables256_generated[OF g]) simp_all
  have c: "getTotalCodewords 5 kQuartile = Returned (int (length (replicate 62 (1::uint8))))"
    "(134::int) = drop_bit 3 (getTotalModules 5)" "(2::int) = 4 - cmod 134 4"
    "(33::int) = cdiv 134 4"
    by (simp_all add: params_5Q)
  from splitBlocks_lengths[OF _ _ t c(1) params_5Q(1,2) c(2,3,4)] obtain blocks where
    b: "splitBlocks st' (replicate 62 1) 4 18 2 33 = Returned blocks" "length blocks = 4"
    and k: "\<forall>k < 4. \<exists>d edc. blocks ! k = d @ (if int k < 2 then [0] else []) @ edc \<and>
        take (length d) (drop (blockStart 33 18 2 k) (replicate 62 1)) = d \<and>
        length edc = 18 \<and> int (length d) = 33 - 18 + (if int k < 2 then 0 else 1)"
    by auto
  have r: "take n (drop m (replicate 62 (1::uint8))) = d \<Longrightarrow> length d = n \<Longrightarrow> m + n \<le> 62
      \<Longrightarrow> d = replicate n 1" for n m d
    by auto
  from k obtain d0 edc0 where k0: "blocks ! 0 = d0 @ [0] @ edc0" "length edc0 = 18"
    "take (length d0) (drop (blockStart 33 18 2 0) (replicate 62 1)) = d0" "length d0 = 15"
    by (drule_tac x = 0 in spec) auto
  from r[OF k0(3)] k0(4) have "d0 = replicate 15 1" by (simp add: blockStart_def)
  with k0 have "\<exists>d edc. blocks ! 0 = d @ [0] @ edc \<and> length edc = 18 \<and> d = replicate 15 1"
    by blast
  moreover from k obtain d3 edc3 where k3: "blocks ! 3 = d3 @ edc3" "length edc3 = 18"
    "take (length d3) (drop (blockStart 33 18 2 3) (replicate 62 1)) = d3" "length d3 = 16"
    by (drule_tac x = 3 in spec) auto
  from r[OF k3(3)] k3(4) have "d3 = replicate 16 1" by (simp add: blockStart_def)
  with k3 have "\<exists>d edc. blocks ! 3 = d @ edc \<and> length edc = 18 \<and> d = replicate 16 1"
    by blast
  ultimately show ?thesis using g c b params_5Q(1,2) by blast
qed

text \<open>
  The order of the claim fails at version 5, level Quartile (4 blocks, 18 correction
  codewords each, 134 codewords, \<open>short_block_len = 33\<close>, two short blocks): on 62 data
  bytes all equal to 1, the last block begins with 16 data bytes, that is
  \<open>short_block_len - E + 1\<close>, and the first block with 15 data bytes and the padding
  byte 0. The last two blocks are the long ones.
\<close>

theorem last_blocks_not_short:
  "table_at kErr_corr_blocks' kQuartile 5 = Returned 4 \<and>
   table_at kEC_codewords_per_block' kQuartile 5 = Returned 18 \<and>
   drop_bit 3 (getTotalModules 5) = 134 \<and> cdiv 134 4 = 33 \<and> 4 - cmod 134 4 = 2 \<and>
   getTotalCodewords 5 kQuartile = Returned 62 \<and>
   length (returned_blocks split_5Q) = 4 \<and>
   blockDataLen 33 18 2 3 = 33 - 18 + 1 \<and>
   take 16 (returned_blocks split_5Q ! 3) = replicate 16 1 \<and>
   blockDataLen 33 18 2 0 = 33 - 18 \<and>
   take 16 (returned_blocks split_5Q ! 0) = replicate 15 1 @ [0]"
proof -
  let ?st = "raw0\<lparr>rsLog' := replicate 256 0, rsExp' := replicate 256 0\<rparr>"
  obtain st' where g: "rsGenerateLogExp ?st = Returned st'"
    using rsGenerateLogExp_Returned[of ?st] by auto
  have t: "tables256 st'" by (rule tables256_generated[OF g]) simp_all
  obtain blocks where
    b: "splitBlocks st' (replicate 62 1) 4 18 2 33 = Returned blocks" "length blocks = nat 4"
    and k: "\<forall>k < nat 4. block_ok (replicate 62 1) 33 18 2 k (blocks ! k)"
    using splitBlocks_blocks[OF t, of 4 18 33 2 "replicate 62 1"] by auto
  have r: "returned_blocks split_5Q = blocks"
    by (simp add: returned_blocks_def split_5Q_def g b(1))
  from k have "block_ok (replicate 62 1) 33 18 2 3 (blocks ! 3)" by simp
  then have b3: "take 16 (blocks ! 3) = replicate 16 1"
    by (auto simp: block_ok_def blockDataLen_def blockStart_def)
  from k have "block_ok (replicate 62 1) 33 18 2 0 (blocks ! 0)" by simp
  then have b0: "take 16 (blocks ! 0) = replicate 15 1 @ [0]"
    by (auto simp: block_ok_def blockDataLen_def blockStart_def)
  show ?thesis
    using b(2) b3 b0 by (simp add: r params_5Q blockDataLen_def)
qed

lemma interleave_Returned:
  assumes "blocks \<noteq> []" "\<forall>b \<in> set blocks. length b = n"
  shows "\<exists>out. interleave blocks E short sl = Returned out"
proof -
  from assms have first: "vec_at blocks 0 = Returned (blocks ! 0)" "length (blocks ! 0) = n"
    by (simp_all add: vec_at_def)
  have "\<exists>out. forLoop [0..<n]
         (\<lambda>i. forLoop [0..<length blocks]
            (\<lambda>j EDC_interleave.
               if int i \<noteq> sl - E \<or> int j \<ge> short
               then andThen (grid_at blocks (int i) (int j)) (\<lambda>b.
                      Returned (EDC_interleave @ [b]))
               else Returned EDC_interleave)) [] = Returned out \<and> True"
  proof (rule forLoop_Returned_inv)
    fix i and acc :: "uint8 list"
    assume i: "i \<in> set [0..<n]"
    show "\<exists>s'. forLoop [0..<length blocks]
            (\<lambda>j EDC_interleave.
               if int i \<noteq> sl - E \<or> int j \<ge> short
               then andThen (grid_at blocks (int i) (int j)) (\<lambda>b.
                      Returned (EDC_interleave @ [b]))
               else Returned EDC_interleave) acc = Returned s' \<and> True"
    proof (rule forLoop_Returned_inv)
      fix j and acc' :: "uint8 list"
      assume j: "j \<in> set [0..<length blocks]"
      with assms(2) i have "grid_at blocks (int i) (int j) = Returned (blocks ! j ! i)"
        by (simp add: grid_at_def vec_at_def)
      then show "\<exists>s'. (if int i \<noteq> sl - E \<or> int j \<ge> short
               then andThen (grid_at blocks (int i) (int j)) (\<lambda>b. Returned (acc' @ [b]))
               else Returned acc') = Returned s' \<and> True"
        by simp
    qed simp
  qed simp
  then show ?thesis by (simp add: interleave_def first)
qed

lemma addEDCInterleave_Returned:
  assumes "1 \<le> version' st" "version' st \<le> 40"
    and "rsLog' st = replicate 256 0" "rsExp' st = replicate 256 0"
    and "getTotalCodewords (version' st) (correctionLevel' st) = Returned (int (length d))"
  shows "\<exists>d' st'. addEDCInterleave d st = Returned (d', st')"
proof -
  obtain st1 where g: "rsGenerateLogExp st = Returned st1"
    using rsGenerateLogExp_Returned[OF assms(3,4)] by blast
  have t: "tables256 st1" by (rule tables256_generated[OF g assms(3,4)])
  from rsGenerateLogExp_frame[OF g] have same: "version' st1 = version' st"
    "correctionLevel' st1 = correctionLevel' st" by auto
  define v where "v = version' st"
  define l where "l = correctionLevel' st"
  define T where "T = drop_bit 3 (getTotalModules v)"
  obtain B E where BE: "table_at kErr_corr_blocks' l v = Returned B"
    "table_at kEC_codewords_per_block' l v = Returned E"
    by (rule params[OF assms(1,2)[folded v_def]])
  note sv = splitBlocks_valid[OF assms(1,2)[folded v_def] t assms(5)[folded v_def l_def] BE T_def]
  from sv(1) obtain blocks where
    sp: "splitBlocks st1 d B E (B - cmod T B) (cdiv T B) = Returned blocks"
    and lb: "length blocks = nat B"
    and bl: "\<forall>k < nat B. block_ok d (cdiv T B) E (B - cmod T B) k (blocks ! k)"
    by blast
  note B = sv(2,3,4)
  have "length b = nat (cdiv T B + 1)" if "b \<in> set blocks" for b
  proof -
    from that obtain k where k: "k < length blocks" "b = blocks ! k"
      by (auto simp: in_set_conv_nth)
    with bl lb have "block_ok d (cdiv T B) E (B - cmod T B) k b" by simp
    from block_ok_length[OF this] obtain dd edc where
      "b = dd @ (if int k < B - cmod T B then [0] else []) @ edc" "length edc = nat E"
      "int (length dd) = cdiv T B - E + (if int k < B - cmod T B then 0 else 1)"
      by blast
    then show ?thesis using B by (auto simp: nat_add_distrib)
  qed
  moreover have "blocks \<noteq> []" using lb B(1) by auto
  ultimately obtain out where out: "interleave blocks E (B - cmod T B) (cdiv T B) = Returned out"
    using interleave_Returned[of blocks "nat (cdiv T B + 1)"] by blast
  have "addEDCInterleave d st = Returned (out, st1)"
    using g BE B(1) sp out
    by (simp add: addEDCInterleave_def same v_def[symmetric] l_def[symmetric] Let_def T_def[symmetric])
  then show ?thesis by blast
qed

section \<open>The constructor returns\<close>

lemma encodeText_cong:
  "encodeText text st =
   encodeText text (raw0\<lparr>version' := version' st, correctionLevel' := correctionLevel' st,
                        kEncoding' := kEncoding' st\<rparr>)"
  by (simp add: encodeText_def)

lemma well_formed_blocks:
  "well_formed s \<Longrightarrow> square (size' s) b \<Longrightarrow> well_formed (s\<lparr>blocks' := b\<rparr>)"
  by (auto simp: well_formed_def)

lemma placeBit_Returned:
  assumes "well_formed s" "0 \<le> right - j" "right - j < size' s" "0 \<le> vert" "vert < size' s"
  shows "\<exists>i' s'. placeBit right vert j (i, s) = Returned (i', s') \<and> well_formed s' \<and>
           size' s' = size' s"
proof -
  define x where "x = right - j"
  define y where "y = (if (right + 1) AND 2 = 0 then size' s - 1 - vert else vert)"
  have xy: "0 \<le> x" "x < size' s" "0 \<le> y" "y < size' s"
    using assms by (auto simp: x_def y_def)
  from assms(1) have sq: "square (size' s) (blocks' s)" "square (size' s) (funcBlock' s)"
    by (auto simp: well_formed_def)
  from sq(2) xy have f: "grid_at (funcBlock' s) x y = Returned (funcBlock' s ! nat y ! nat x)"
    by (auto simp: grid_at_Returned_iff square_def)
  have eq: "placeBit right vert j (i, s) =
        andThen (grid_at (funcBlock' s) x y) (\<lambda>f.
          if \<not> f \<and> i < length (data' s) * 8
          then andThen (vec_at (data' s) (int (drop_bit 3 i))) (\<lambda>byte.
               andThen (grid_set (blocks' s) x y (bit byte (7 - (i AND 7)))) (\<lambda>b.
                 Returned (i + 1, s\<lparr>blocks' := b\<rparr>)))
          else Returned (i, s))"
    unfolding x_def y_def by (simp add: placeBit_def Let_def)
  show ?thesis
  proof (cases "\<not> funcBlock' s ! nat y ! nat x \<and> i < length (data' s) * 8")
    case False
    then show ?thesis using assms(1) by (auto simp: eq f)
  next
    case True
    then have "i < length (data' s) * 8" by simp
    then have "i div 8 < length (data' s)" by (simp add: less_mult_imp_div_less)
    then have "drop_bit 3 i < length (data' s)" by (simp add: drop_bit_eq_div)
    then have v: "vec_at (data' s) (int (drop_bit 3 i)) = Returned (data' s ! drop_bit 3 i)"
      by (simp add: vec_at_Returned_iff)
    obtain b where b: "grid_set (blocks' s) x y (bit (data' s ! drop_bit 3 i) (7 - (i AND 7))) = Returned b"
      "square (size' s) b"
      using grid_set_square[OF sq(1) xy] by blast
    have "well_formed (s\<lparr>blocks' := b\<rparr>)" by (rule well_formed_blocks[OF assms(1) b(2)])
    then show ?thesis using True by (simp add: eq f v b(1))
  qed
qed

lemma column_Returned:
  assumes "well_formed (snd ist)" "1 \<le> right" "right < size' (snd ist)"
  shows "\<exists>ist'. forLoop [0..size' (snd ist) - 1] (\<lambda>vert. forLoop [0, 1] (placeBit right vert)) ist
            = Returned ist' \<and> (well_formed (snd ist') \<and> size' (snd ist') = size' (snd ist))"
proof (rule forLoop_Returned_inv[where I = "\<lambda>p. well_formed (snd p) \<and> size' (snd p) = size' (snd ist)"])
  show "well_formed (snd ist) \<and> size' (snd ist) = size' (snd ist)" using assms(1) by simp
next
  fix vert and p :: "nat \<times> QRCode"
  assume vert: "vert \<in> set [0..size' (snd ist) - 1]"
    and p: "well_formed (snd p) \<and> size' (snd p) = size' (snd ist)"
  show "\<exists>s'. forLoop [0, 1] (placeBit right vert) p = Returned s' \<and>
          (well_formed (snd s') \<and> size' (snd s') = size' (snd ist))"
  proof (rule forLoop_Returned_inv[where I = "\<lambda>p. well_formed (snd p) \<and> size' (snd p) = size' (snd ist)"])
    show "well_formed (snd p) \<and> size' (snd p) = size' (snd ist)" by (rule p)
  next
    fix j and q :: "nat \<times> QRCode"
    assume j: "j \<in> set [0, 1::int]"
      and q: "well_formed (snd q) \<and> size' (snd q) = size' (snd ist)"
    obtain i s where qq: "q = (i, s)" by (cases q)
    from j assms(2,3) q qq have "0 \<le> right - j" "right - j < size' s" by auto
    moreover from vert q qq have "0 \<le> vert" "vert < size' s" by auto
    ultimately obtain i' s' where "placeBit right vert j (i, s) = Returned (i', s')"
      "well_formed s'" "size' s' = size' s"
      using placeBit_Returned[of s right j vert i] q qq by auto
    then show "\<exists>s'. placeBit right vert j q = Returned s' \<and>
          (well_formed (snd s') \<and> size' (snd s') = size' (snd ist))"
      using q qq by simp
  qed
qed

lemma codewordColumns_Returned:
  assumes "well_formed (snd ist)" "right < size' (snd ist)"
  shows "\<exists>st'. codewordColumns right ist = Returned st' \<and> well_formed st'"
  using assms
proof (induction right ist rule: codewordColumns.induct)
  case (1 right ist)
  show ?case
  proof (cases "right \<ge> 1")
    case False
    with "1.prems" show ?thesis by (subst codewordColumns.simps) simp
  next
    case True
    define right' where "right' = (if right = 6 then 5 else right)"
    from True "1.prems" have r: "1 \<le> right'" "right' < size' (snd ist)"
      by (auto simp: right'_def)
    from column_Returned[OF "1.prems"(1) r] obtain ist' where
      c: "forLoop [0..size' (snd ist) - 1] (\<lambda>vert. forLoop [0, 1] (placeBit right' vert)) ist
            = Returned ist'" "well_formed (snd ist')" "size' (snd ist') = size' (snd ist)"
      by blast
    have "\<exists>st'. codewordColumns (right' - 2) ist' = Returned st' \<and> well_formed st'"
      by (rule "1.IH"[OF True right'_def c(1) c(2)]) (use r c(3) in simp)
    then show ?thesis
      using True c(1) by (subst codewordColumns.simps) (simp add: right'_def[symmetric] Let_def)
  qed
qed

lemma drawCodewords_Returned:
  assumes "well_formed st"
  shows "\<exists>st'. drawCodewords st = Returned st' \<and> well_formed st'"
  using codewordColumns_Returned[of "(0, st)" "size' st - 1"] assms
  by (simp add: drawCodewords_def)

lemma mask_fn_Returned:
  assumes "well_formed st" "0 \<le> m" "m \<le> 7"
  shows "\<exists>st'. mask_fn m st = Returned st' \<and> well_formed st'"
proof -
  define n where "n = size' st"
  from assms(1) have n: "21 \<le> n" "n \<le> 177" by (simp_all add: well_formed_def n_def)
  then have sz: "unat (word_of_int (size' st) :: 64 word) = nat n"
    by (simp add: n_def[symmetric] unat_eq_nat_uint uint_word_of_int take_bit_int_eq_self)
  have "\<exists>st'. forLoop [0..<nat n] (\<lambda>y.
          forLoop [0..<nat n] (\<lambda>x st'.
            andThen (grid_at (blocks' st') (int x) (int y)) (\<lambda>b.
            andThen (grid_at (funcBlock' st') (int x) (int y)) (\<lambda>f.
            andThen (grid_set (blocks' st') (int x) (int y) (b \<noteq> (maskSwap m x y \<and> \<not> f))) (\<lambda>b'.
              Returned (st'\<lparr>blocks' := b'\<rparr>)))))) st = Returned st' \<and>
          (well_formed st' \<and> size' st' = n)"
  proof (rule forLoop_Returned_inv[where I = "\<lambda>s. well_formed s \<and> size' s = n"])
    show "well_formed st \<and> size' st = n" using assms(1) by (simp add: n_def)
  next
    fix y s
    assume y: "y \<in> set [0..<nat n]" and s: "well_formed s \<and> size' s = n"
    show "\<exists>s'. forLoop [0..<nat n] (\<lambda>x st'.
            andThen (grid_at (blocks' st') (int x) (int y)) (\<lambda>b.
            andThen (grid_at (funcBlock' st') (int x) (int y)) (\<lambda>f.
            andThen (grid_set (blocks' st') (int x) (int y) (b \<noteq> (maskSwap m x y \<and> \<not> f))) (\<lambda>b'.
              Returned (st'\<lparr>blocks' := b'\<rparr>))))) s = Returned s' \<and>
          (well_formed s' \<and> size' s' = n)"
    proof (rule forLoop_Returned_inv[where I = "\<lambda>s. well_formed s \<and> size' s = n"])
      show "well_formed s \<and> size' s = n" by (rule s)
    next
      fix x t
      assume x: "x \<in> set [0..<nat n]" and t: "well_formed t \<and> size' t = n"
      from t have sq: "square n (blocks' t)" "square n (funcBlock' t)"
        by (auto simp: well_formed_def)
      from x y have xy: "0 \<le> int x" "int x < n" "0 \<le> int y" "int y < n" by auto
      from sq(1) xy have b: "grid_at (blocks' t) (int x) (int y) = Returned (blocks' t ! y ! x)"
        by (auto simp: grid_at_Returned_iff square_def)
      from sq(2) xy have f: "grid_at (funcBlock' t) (int x) (int y) = Returned (funcBlock' t ! y ! x)"
        by (auto simp: grid_at_Returned_iff square_def)
      obtain b' where b': "grid_set (blocks' t) (int x) (int y)
            (blocks' t ! y ! x \<noteq> (maskSwap m x y \<and> \<not> funcBlock' t ! y ! x)) = Returned b'"
        "square n b'"
        using grid_set_square[OF sq(1) xy] by blast
      have "well_formed (t\<lparr>blocks' := b'\<rparr>)" using t b'(2) by (auto intro: well_formed_blocks)
      moreover have "andThen (grid_at (blocks' t) (int x) (int y)) (\<lambda>b.
            andThen (grid_at (funcBlock' t) (int x) (int y)) (\<lambda>f.
            andThen (grid_set (blocks' t) (int x) (int y) (b \<noteq> (maskSwap m x y \<and> \<not> f))) (\<lambda>b'.
              Returned (t\<lparr>blocks' := b'\<rparr>)))) = Returned (t\<lparr>blocks' := b'\<rparr>)"
        by (simp only: b f b'(1) andThen.simps)
      ultimately show "\<exists>s'. andThen (grid_at (blocks' t) (int x) (int y)) (\<lambda>b.
            andThen (grid_at (funcBlock' t) (int x) (int y)) (\<lambda>f.
            andThen (grid_set (blocks' t) (int x) (int y) (b \<noteq> (maskSwap m x y \<and> \<not> f))) (\<lambda>b'.
              Returned (t\<lparr>blocks' := b'\<rparr>)))) = Returned s' \<and> (well_formed s' \<and> size' s' = n)"
        using t by simp
    qed
  qed
  then show ?thesis using assms(2,3) by (auto simp: mask_fn_def Let_def sz)
qed

lemma determineEncoding_frame:
  "\<exists>e. determineEncoding text st = st\<lparr>kEncoding' := e\<rparr>"
proof -
  have "st = st\<lparr>kEncoding' := kEncoding' st\<rparr>" by simp
  then show ?thesis unfolding determineEncoding_def by (metis (full_types))
qed

text \<open>
  When the text is classified, a version is found and the encoded text fills the data
  capacity of that version, every later step of the constructor returns.
\<close>

lemma QRCode_ctor_Returned:
  assumes st1: "st1 = determineEncoding text (initialise raw text err (if msk < 0 \<or> msk > 7 then 0 else msk))"
    and enc: "kEncoding' st1 = Some enc"
    and sel: "setVersionAndErrorLevel (getEncodingMode enc) (size_to_int (length text)) err st1 = Returned st2"
    and et: "encodeText text (raw0\<lparr>version' := version' st2, correctionLevel' := correctionLevel' st2,
                        kEncoding' := Some enc\<rparr>) = Returned d"
    and len: "getTotalCodewords (version' st2) (correctionLevel' st2) = Returned (int (length d))"
  shows "\<exists>qr. QRCode_ctor raw text err msk = Returned qr \<and> well_formed qr \<and>
           version' qr = version' st2 \<and> correctionLevel' qr = correctionLevel' st2 \<and>
           kEncoding' qr = Some enc \<and> mask' qr = (if msk < 0 \<or> msk > 7 then 0 else msk)"
proof -
  define msk' where "msk' = (if msk < 0 \<or> msk > 7 then 0 else msk)"
  have m: "0 \<le> msk'" "msk' \<le> 7" by (auto simp: msk'_def)
  obtain e where e: "st1 = (initialise raw text err msk')\<lparr>kEncoding' := e\<rparr>"
    using determineEncoding_frame[of "text" "initialise raw text err msk'"] st1
    by (auto simp: msk'_def)
  from setVersionAndErrorLevel_Returned[OF sel] obtain v l where
    v: "1 \<le> v" "v \<le> 40" and st2: "st2 = st1\<lparr>version' := v, correctionLevel' := l\<rparr>"
    by blast
  have f2: "version' st2 = v" "kEncoding' st2 = Some enc" "rsLog' st2 = replicate 256 0"
    "rsExp' st2 = replicate 256 0"
    using enc by (simp_all add: st2 e initialise_def)
  note a = allocate_well_formed[OF v[folded f2(1)]]
  obtain st5 where dp: "drawPatterns (allocate st2) = Returned st5" and w5: "well_formed st5"
    and d5: "draws (allocate st2) st5"
    using drawPatterns_good[OF a(1)] by blast
  from d5 obtain b f where st5: "st5 = (allocate st2)\<lparr>blocks' := b, funcBlock' := f\<rparr>"
    unfolding draws_def by blast
  have f5: "version' st5 = version' st2" "correctionLevel' st5 = correctionLevel' st2"
    "kEncoding' st5 = Some enc" "rsLog' st5 = replicate 256 0" "rsExp' st5 = replicate 256 0"
    using f2 by (simp_all add: st5 allocate_def Let_def)
  have et5: "encodeText text st5 = Returned d"
    by (subst encodeText_cong) (simp add: f5 et)
  obtain d' st6 where ai: "addEDCInterleave d (st5\<lparr>data' := d\<rparr>) = Returned (d', st6)"
    using addEDCInterleave_Returned[of "st5\<lparr>data' := d\<rparr>" d] v f2(1) f5 len by auto
  obtain lg ex where st6: "st6 = st5\<lparr>data' := d, rsLog' := lg, rsExp' := ex\<rparr>"
    using addEDCInterleave_frame[OF ai] by auto
  have "well_formed (st6\<lparr>data' := d'\<rparr>)" using w5 by (auto simp: st6 well_formed_def)
  then obtain st7 where dc: "drawCodewords (st6\<lparr>data' := d'\<rparr>) = Returned st7"
    and w7: "well_formed st7"
    using drawCodewords_Returned by blast
  obtain qr where mk: "mask_fn msk' st7 = Returned qr" and wq: "well_formed qr"
    using mask_fn_Returned[OF w7 m] by blast
  have ctor: "QRCode_ctor raw text err msk = Returned qr"
    unfolding QRCode_ctor_def Let_def msk'_def[symmetric] st1[folded msk'_def, symmetric]
    by (simp add: enc deref_def sel dp et5 ai dc mk)
  obtain b7 where st7: "st7 = st6\<lparr>data' := d', blocks' := b7\<rparr>"
    using drawCodewords_keeps[OF dc] unfolding keeps_reserved_def by auto
  obtain bq where qr: "qr = st7\<lparr>blocks' := bq\<rparr>"
    using mask_fn_keeps[OF mk] unfolding keeps_reserved_def by auto
  have "version' qr = version' st2" "correctionLevel' qr = correctionLevel' st2"
    "kEncoding' qr = Some enc" "mask' qr = msk'"
    using f5 by (simp_all add: qr st7 st6 st5 allocate_def Let_def st2 e initialise_def)
  with ctor wq show ?thesis unfolding msk'_def by blast
qed

subsection \<open>A run of the constructor\<close>

lemma hello_world_encoding:
  "determineEncoding ''HELLO WORLD'' st = st\<lparr>kEncoding' := Some kAlpha'\<rparr>"
  by (simp add: determineEncoding_def isNumeric_def isAlphanumeric_def kAlphanumericChar'_def
        char_code_def)

lemma hello_world_version:
  "setVersionAndErrorLevel (getEncodingMode kAlpha') (size_to_int (length ''HELLO WORLD'')) kQuartile
     (raw0\<lparr>kEncoding' := Some kAlpha'\<rparr>)
   = Returned (raw0\<lparr>kEncoding' := Some kAlpha', version' := 1, correctionLevel' := kQuartile\<rparr>)"
  by code_simp

lemma hello_world_data:
  "encodeText ''HELLO WORLD''
     (raw0\<lparr>version' := 1, correctionLevel' := kQuartile, kEncoding' := Some kAlpha'\<rparr>)
   = Returned [32, 91, 11, 120, 209, 114, 220, 77, 67, 64, 236, 17, 236]"
  by code_simp

lemma hello_world_codewords: "getTotalCodewords 1 kQuartile = Returned 13"
  by code_simp

lemma hello_world_version0:
  "setVersionAndErrorLevel (getEncodingMode kAlpha') (size_to_int (length ''HELLO WORLD'')) kQuartile
     ((initialise raw0 ''HELLO WORLD'' kQuartile 0)\<lparr>kEncoding' := Some kAlpha'\<rparr>)
   = Returned ((initialise raw0 ''HELLO WORLD'' kQuartile 0)
        \<lparr>kEncoding' := Some kAlpha', version' := 1, correctionLevel' := kQuartile\<rparr>)"
  by code_simp

lemma hello_world_Returned:
  assumes "msk = 0 \<or> msk < 0 \<or> 7 < msk"
  shows "\<exists>qr. QRCode_ctor raw0 ''HELLO WORLD'' kQuartile msk = Returned qr \<and> well_formed qr \<and>
           version' qr = 1 \<and> correctionLevel' qr = kQuartile \<and> mask' qr = 0"
proof -
  from assms have m: "(if msk < 0 \<or> msk > 7 then 0 else msk) = 0" by auto
  define st1 where "st1 = (initialise raw0 ''HELLO WORLD'' kQuartile 0)\<lparr>kEncoding' := Some kAlpha'\<rparr>"
  define st2 where "st2 = st1\<lparr>version' := 1, correctionLevel' := kQuartile\<rparr>"
  have 1: "st1 = determineEncoding ''HELLO WORLD''
             (initialise raw0 ''HELLO WORLD'' kQuartile (if msk < 0 \<or> msk > 7 then 0 else msk))"
    unfolding m st1_def by (simp only: hello_world_encoding)
  have 2: "kEncoding' st1 = Some kAlpha'" by (simp add: st1_def)
  have 3: "setVersionAndErrorLevel (getEncodingMode kAlpha') (size_to_int (length ''HELLO WORLD''))
             kQuartile st1 = Returned st2"
    unfolding st1_def st2_def using hello_world_version0 by simp
  have v: "version' st2 = 1" "correctionLevel' st2 = kQuartile" by (simp_all add: st2_def)
  have 4: "encodeText ''HELLO WORLD'' (raw0\<lparr>version' := version' st2,
              correctionLevel' := correctionLevel' st2, kEncoding' := Some kAlpha'\<rparr>)
           = Returned [32, 91, 11, 120, 209, 114, 220, 77, 67, 64, 236, 17, 236]"
    unfolding v by (rule hello_world_data)
  have 5: "getTotalCodewords (version' st2) (correctionLevel' st2)
           = Returned (int (length [32, 91, 11, 120, 209, 114, 220, 77, 67, 64, 236, 17, 236 :: uint8]))"
    unfolding v by (simp add: hello_world_codewords)
  from QRCode_ctor_Returned[OF 1 2 3 4 5] have
    "\<exists>qr. QRCode_ctor raw0 ''HELLO WORLD'' kQuartile msk = Returned qr \<and> well_formed qr \<and>
       version' qr = 1 \<and> correctionLevel' qr = kQuartile \<and> kEncoding' qr = Some kAlpha' \<and>
       mask' qr = 0"
    by (simp add: v m)
  then show ?thesis by blast
qed

text \<open>
  C7. In a symbol the constructor returns, the size is \<open>4 * version + 17\<close>, and every
  cell of row 6 and of column 6 between the finder regions (positions 8 to \<open>size - 9\<close>)
  is dark exactly when its position is even, whatever alignment patterns, format and
  version information, codewords and mask were drawn.
\<close>

theorem timing_pattern:
  assumes "QRCode_ctor raw text err msk = Returned qr" "8 \<le> p" "int p + 8 < size' qr"
  shows "size' qr = 4 * version' qr + 17 \<and> module qr p 6 = even p \<and> module qr 6 p = even p"
proof -
  from assms(1) obtain msk' st1 enc st2 st5 d d' st6 st7 where
    sel: "setVersionAndErrorLevel (getEncodingMode enc) (size_to_int (length text)) err st1 = Returned st2"
    and dp: "drawPatterns (allocate st2) = Returned st5"
    and ai: "addEDCInterleave d (st5\<lparr>data' := d\<rparr>) = Returned (d', st6)"
    and dc: "drawCodewords (st6\<lparr>data' := d'\<rparr>) = Returned st7"
    and mk: "mask_fn msk' st7 = Returned qr"
    by (rule QRCode_ctor_stages)
  from setVersionAndErrorLevel_Returned[OF sel] have v: "1 \<le> version' st2" "version' st2 \<le> 40"
    by auto
  note a = allocate_well_formed[OF v]
  from drawPatterns_good[OF a(1)] dp have st5: "draws (allocate st2) st5"
    and res5: "\<And>q. 0 \<le> q \<Longrightarrow> q < size' (allocate st2) \<Longrightarrow>
                 reserved st5 (nat q) 6 \<and> reserved st5 6 (nat q)"
    by auto
  from st5 a(2) have tv5: "timing_val st5" by (simp add: draws_def)
  have sz5: "size' st5 = 4 * version' st5 + 17"
    using draws_size[OF st5] draws_version[OF st5] a(3,4) by simp
  obtain lg ex where st6: "st6 = st5\<lparr>data' := d, rsLog' := lg, rsExp' := ex\<rparr>"
    using addEDCInterleave_frame[OF ai] by auto
  define s6 where "s6 = st6\<lparr>data' := d'\<rparr>"
  have k7: "keeps_reserved s6 st7" using drawCodewords_keeps[OF dc] by (simp add: s6_def)
  have kq: "keeps_reserved st7 qr" using mask_fn_keeps[OF mk] by simp
  have same: "funcBlock' s6 = funcBlock' st5" "blocks' s6 = blocks' st5" "size' s6 = size' st5"
    "version' s6 = version' st5"
    by (simp_all add: s6_def st6)
  have szq: "size' qr = size' st5" and vq: "version' qr = version' st5"
    using keeps_reserved_same[OF k7] keeps_reserved_same[OF kq] same by simp_all
  have keep: "module qr x y = module st5 x y" if "reserved st5 x y" for x y
  proof -
    from that have r6: "reserved s6 x y" by (simp add: reserved_def same)
    with k7 have "module st7 x y = module s6 x y" "reserved st7 x y"
      using keeps_reserved_same(1)[OF k7] by (simp_all add: keeps_reserved_def reserved_def)
    with kq have "module qr x y = module s6 x y" by (simp add: keeps_reserved_def)
    then show ?thesis by (simp add: module_def same)
  qed
  from assms(3) szq draws_size[OF st5] have p: "8 \<le> p \<and> int p + 8 < size' st5"
    "0 \<le> int p" "int p < size' (allocate st2)"
    using assms(2) by simp_all
  from res5[OF p(2,3)] have r: "reserved st5 p 6" "reserved st5 6 p" by simp_all
  with tv5 p(1) have "module st5 p 6 = even p" "module st5 6 p = even p"
    by (simp_all add: timing_val_def)
  with keep r sz5 szq vq show ?thesis by simp
qed

theorem timing_pattern_witness:
  "\<exists>qr. QRCode_ctor raw0 ''HELLO WORLD'' kQuartile 0 = Returned qr \<and>
        size' qr = 21 \<and> (8::nat) \<le> 8 \<and> int 8 + 8 < size' qr \<and> (8::nat) \<le> 9 \<and> int 9 + 8 < size' qr \<and>
        module qr 8 6 \<and> module qr 6 8 \<and> \<not> module qr 9 6 \<and> \<not> module qr 6 9"
proof -
  obtain qr where c: "QRCode_ctor raw0 ''HELLO WORLD'' kQuartile 0 = Returned qr"
    and w: "well_formed qr" and v: "version' qr = 1"
    using hello_world_Returned[of 0] by auto
  from w v have sz: "size' qr = 21" by (simp add: well_formed_def)
  from timing_pattern[OF c, of 8] sz have "module qr 8 6" "module qr 6 8" by simp_all
  moreover from timing_pattern[OF c, of 9] sz have "\<not> module qr 9 6" "\<not> module qr 6 9" by simp_all
  ultimately show ?thesis using c sz by auto
qed

lemma QRCode_ctor_mask:
  assumes "QRCode_ctor raw text err msk = Returned qr"
  shows "mask' qr = (if msk < 0 \<or> msk > 7 then 0 else msk)"
proof -
  from assms obtain msk' st1 enc st2 st5 d d' st6 st7 where
    m: "msk' = (if msk < 0 \<or> msk > 7 then 0 else msk)"
    and st1: "st1 = determineEncoding text (initialise raw text err msk')"
    and sel: "setVersionAndErrorLevel (getEncodingMode enc) (size_to_int (length text)) err st1 = Returned st2"
    and dp: "drawPatterns (allocate st2) = Returned st5"
    and ai: "addEDCInterleave d (st5\<lparr>data' := d\<rparr>) = Returned (d', st6)"
    and dc: "drawCodewords (st6\<lparr>data' := d'\<rparr>) = Returned st7"
    and mk: "mask_fn msk' st7 = Returned qr"
    by (rule QRCode_ctor_stages)
  obtain e where e: "st1 = (initialise raw text err msk')\<lparr>kEncoding' := e\<rparr>"
    using determineEncoding_frame[of "text" "initialise raw text err msk'"] st1 by auto
  from setVersionAndErrorLevel_Returned[OF sel] obtain v l where
    v: "1 \<le> v" "v \<le> 40" and st2: "st2 = st1\<lparr>version' := v, correctionLevel' := l\<rparr>"
    by blast
  have v2: "1 \<le> version' st2" "version' st2 \<le> 40" using v by (simp_all add: st2)
  from drawPatterns_good[OF allocate_well_formed(1)[OF v2]] dp
  have "draws (allocate st2) st5" by auto
  then have m5: "mask' st5 = mask' (allocate st2)" by (rule draws_mask)
  obtain lg ex where st6: "st6 = st5\<lparr>data' := d, rsLog' := lg, rsExp' := ex\<rparr>"
    using addEDCInterleave_frame[OF ai] by auto
  obtain b7 where st7: "st7 = st6\<lparr>data' := d', blocks' := b7\<rparr>"
    using drawCodewords_keeps[OF dc] unfolding keeps_reserved_def by auto
  obtain bq where qr: "qr = st7\<lparr>blocks' := bq\<rparr>"
    using mask_fn_keeps[OF mk] unfolding keeps_reserved_def by auto
  have "mask' qr = msk'"
    by (simp add: qr st7 st6 m5 allocate_def Let_def st2 e initialise_def)
  with m show ?thesis by simp
qed

text \<open>
  C9. With a mask index outside \<open>[0, 7]\<close> the constructor does what it does with the
  index 0: the same outcome, and a symbol it returns has 0 as its mask index. The mask
  routine called with such an index throws \<^verbatim>\<open>logic_error("Invalid mask.")\<close>.
\<close>

theorem mask_index_out_of_range:
  assumes "msk < 0 \<or> 7 < msk"
  shows "QRCode_ctor raw text err msk = QRCode_ctor raw text err 0 \<and>
         (\<forall>qr. QRCode_ctor raw text err msk = Returned qr \<longrightarrow> mask' qr = 0) \<and>
         mask_fn msk st = Throws (logic_error ''Invalid mask.'')"
proof -
  from assms have m: "(if msk < 0 \<or> msk > 7 then 0 else msk) = 0" by auto
  have "QRCode_ctor raw text err msk = QRCode_ctor raw text err 0"
    by (simp only: QRCode_ctor_def m) simp
  moreover have "mask' qr = 0" if "QRCode_ctor raw text err msk = Returned qr" for qr
    using QRCode_ctor_mask[OF that] m by simp
  moreover have "mask_fn msk st = Throws (logic_error ''Invalid mask.'')"
    using assms by (auto simp: mask_fn_def)
  ultimately show ?thesis by blast
qed

theorem mask_index_out_of_range_witness:
  "((9::int) < 0 \<or> 7 < (9::int)) \<and>
   (\<exists>qr. QRCode_ctor raw0 ''HELLO WORLD'' kQuartile 9 = Returned qr \<and>
         QRCode_ctor raw0 ''HELLO WORLD'' kQuartile 0 = Returned qr \<and> mask' qr = 0 \<and>
         mask_fn 9 qr = Throws (logic_error ''Invalid mask.''))"
proof -
  obtain qr where c: "QRCode_ctor raw0 ''HELLO WORLD'' kQuartile 9 = Returned qr"
    using hello_world_Returned[of 9] by auto
  have h: "(9::int) < 0 \<or> 7 < (9::int)" by simp
  from mask_index_out_of_range[OF h, of raw0 "''HELLO WORLD''" kQuartile qr] c
  have "QRCode_ctor raw0 ''HELLO WORLD'' kQuartile 0 = Returned qr" "mask' qr = 0"
    "mask_fn 9 qr = Throws (logic_error ''Invalid mask.'')"
    by simp_all
  with c h show ?thesis by blast
qed

end
